theory Spec2Isabelle
  imports Main "HOL-Library.Word"
begin

section \<open>The io\_uring allocation cache (alloc\_cache.h), both variants\<close>

text \<open>
  The header exists twice in the sources: \<^verbatim>\<open>src/unnamed/part_001\<close> is the plain
  variant, \<^verbatim>\<open>src/unnamed/part_000\<close> the variant with the KASAN call-outs, whose
  \<^verbatim>\<open>io_alloc_cache_get\<close> and \<^verbatim>\<open>io_alloc_cache_free\<close> take a \<^verbatim>\<open>size\<close>.
  The plain variant keeps the C names; the functions of the KASAN variant carry the
  suffix \<open>_kasan\<close>.
\<close>

subsection \<open>Data model\<close>

text \<open>
  An entry is identified by its address. \<^verbatim>\<open>struct io_cache_entry\<close> holds just
  the \<^verbatim>\<open>node\<close> at offset 0, so \<^verbatim>\<open>container_of(node, struct io_cache_entry, node)\<close>
  is the identity on addresses. A pointer is \<open>None\<close> for \<^verbatim>\<open>NULL\<close> and \<open>Some a\<close>
  for the address \<open>a\<close>; \<^verbatim>\<open>io_alloc_cache_put\<close> dereferences its entry, so the entry
  argument is an address, never \<^verbatim>\<open>NULL\<close>.
\<close>

type_synonym addr = nat
type_synonym ptr = "addr option"

text \<open>
  Modelled from the spec: \<^verbatim>\<open>struct io_alloc_cache\<close> is declared outside the two
  headers. It has the list head \<^verbatim>\<open>list\<close> (a \<^verbatim>\<open>struct io_wq_work_node\<close>, whose
  only field is \<^verbatim>\<open>next\<close>) and the counter \<^verbatim>\<open>nr_cached\<close> (the spec's \<open>head\<close>
  and \<open>count\<close>); the counter is taken as a C \<^verbatim>\<open>unsigned int\<close> of 32 bits, and
  \<^verbatim>\<open>nr_cached++\<close> wraps as the word addition does.
\<close>

record io_alloc_cache =
  list_next :: ptr
  nr_cached :: "32 word"

text \<open>
  The memory of the entries: the link field \<^verbatim>\<open>entry->node.next\<close> of the entry at each
  address, and the rest of the object (the payload, of a type the owner chooses).
\<close>

record 'p memory =
  node_next :: "addr \<Rightarrow> ptr"
  payload :: "addr \<Rightarrow> 'p"

text \<open>
  Modelled from the spec: \<^verbatim>\<open>kasan_slab_free_mempool\<close> and \<^verbatim>\<open>kasan_unpoison_range\<close>
  are defined elsewhere in the kernel. They are the sanitizer's call-outs (the spec's
  \<open>onRelease\<close> and \<open>onAcquire\<close>), advisory and no-ops without instrumentation: a call
  is recorded and changes nothing else. The third kind of call that leaves the header
  is the caller's \<^verbatim>\<open>free\<close> callback.
\<close>

datatype call =
  Kasan_slab_free_mempool addr
  | Kasan_unpoison_range addr nat
  | Free_entry addr

record 'p state =
  cache :: io_alloc_cache
  mem :: "'p memory"
  calls :: "call list"

text \<open>The \<^verbatim>\<open>free\<close> callback is the caller's code: it is given the entry and may
  change the memory.\<close>

type_synonym 'p callback = "addr \<Rightarrow> 'p memory \<Rightarrow> 'p memory"

definition IO_ALLOC_CACHE_MAX :: "32 word" where
  "IO_ALLOC_CACHE_MAX = 512"

subsection \<open>Operations\<close>

text \<open>
  Modelled from the spec: \<^verbatim>\<open>wq_stack_add_head(node, stack)\<close> is defined outside the
  two headers; the entry's link field is set to the previous head and the entry
  becomes the new head (\<^verbatim>\<open>node->next = stack->next; stack->next = node;\<close>).
  The stack is always \<^verbatim>\<open>&cache->list\<close>.
\<close>

definition wq_stack_add_head :: "addr \<Rightarrow> 'p state \<Rightarrow> 'p state" where
  "wq_stack_add_head node s =
     (let s1 = s\<lparr>mem := (mem s)\<lparr>node_next := (node_next (mem s))(node := list_next (cache s))\<rparr>\<rparr>
      in s1\<lparr>cache := (cache s1)\<lparr>list_next := Some node\<rparr>\<rparr>)"

definition call_out :: "call \<Rightarrow> 'p state \<Rightarrow> 'p state" where
  "call_out c s = s\<lparr>calls := calls s @ [c]\<rparr>"

text \<open>Calling \<^verbatim>\<open>free(entry)\<close>: the callback runs on the memory and the call is recorded.\<close>

definition call_free :: "'p callback \<Rightarrow> addr \<Rightarrow> 'p state \<Rightarrow> 'p state" where
  "call_free free entry s = (call_out (Free_entry entry) s)\<lparr>mem := free entry (mem s)\<rparr>"

paragraph \<open>The plain variant (part\_001)\<close>

definition io_alloc_cache_put :: "addr \<Rightarrow> 'p state \<Rightarrow> bool \<times> 'p state" where
  "io_alloc_cache_put entry s =
     (if nr_cached (cache s) < IO_ALLOC_CACHE_MAX then
        (let s1 = s\<lparr>cache := (cache s)\<lparr>nr_cached := nr_cached (cache s) + 1\<rparr>\<rparr>;
             s2 = wq_stack_add_head entry s1
         in (True, s2))
      else (False, s))"

definition io_alloc_cache_get :: "'p state \<Rightarrow> ptr \<times> 'p state" where
  "io_alloc_cache_get s =
     (case list_next (cache s) of
        Some node \<Rightarrow>
          (let s1 = s\<lparr>cache := (cache s)\<lparr>list_next := node_next (mem s) node\<rparr>\<rparr>
           in (Some node, s1))
      | None \<Rightarrow> (None, s))"

definition io_alloc_cache_init :: "'p state \<Rightarrow> 'p state" where
  "io_alloc_cache_init s = s\<lparr>cache := (cache s)\<lparr>list_next := None, nr_cached := 0\<rparr>\<rparr>"

text \<open>The \<^verbatim>\<open>while (cache->list.next)\<close> loop of \<^verbatim>\<open>io_alloc_cache_free\<close>; it need not
  end (a cyclic chain), so its result is an option.\<close>

partial_function (option) free_loop :: "'p callback \<Rightarrow> 'p state \<Rightarrow> 'p state option" where
  "free_loop free s =
     (case list_next (cache s) of
        None \<Rightarrow> Some s
      | Some node \<Rightarrow>
          free_loop free
            (call_free free node (s\<lparr>cache := (cache s)\<lparr>list_next := node_next (mem s) node\<rparr>\<rparr>)))"

declare free_loop.simps [code]

definition io_alloc_cache_free :: "'p callback \<Rightarrow> 'p state \<Rightarrow> 'p state option" where
  "io_alloc_cache_free free s =
     (case free_loop free s of
        None \<Rightarrow> None
      | Some s1 \<Rightarrow> Some (s1\<lparr>cache := (cache s1)\<lparr>nr_cached := 0\<rparr>\<rparr>))"

paragraph \<open>The KASAN variant (part\_000)\<close>

definition io_alloc_cache_put_kasan :: "addr \<Rightarrow> 'p state \<Rightarrow> bool \<times> 'p state" where
  "io_alloc_cache_put_kasan entry s =
     (if nr_cached (cache s) < IO_ALLOC_CACHE_MAX then
        (let s1 = s\<lparr>cache := (cache s)\<lparr>nr_cached := nr_cached (cache s) + 1\<rparr>\<rparr>;
             s2 = wq_stack_add_head entry s1;
             s3 = call_out (Kasan_slab_free_mempool entry) s2
         in (True, s3))
      else (False, s))"

definition io_alloc_cache_get_kasan :: "nat \<Rightarrow> 'p state \<Rightarrow> ptr \<times> 'p state" where
  "io_alloc_cache_get_kasan sz s =
     (case list_next (cache s) of
        Some node \<Rightarrow>
          (let s1 = call_out (Kasan_unpoison_range node sz) s;
               s2 = s1\<lparr>cache := (cache s1)\<lparr>list_next := node_next (mem s1) node\<rparr>\<rparr>
           in (Some node, s2))
      | None \<Rightarrow> (None, s))"

definition io_alloc_cache_init_kasan :: "'p state \<Rightarrow> 'p state" where
  "io_alloc_cache_init_kasan s = s\<lparr>cache := (cache s)\<lparr>list_next := None, nr_cached := 0\<rparr>\<rparr>"

text \<open>The loop \<^verbatim>\<open>while ((entry = io_alloc_cache_get(cache, size))) free(entry);\<close>\<close>

partial_function (option) free_loop_kasan ::
  "'p callback \<Rightarrow> nat \<Rightarrow> 'p state \<Rightarrow> 'p state option" where
  "free_loop_kasan free sz s =
     (case io_alloc_cache_get_kasan sz s of
        (None, s1) \<Rightarrow> Some s1
      | (Some entry, s1) \<Rightarrow> free_loop_kasan free sz (call_free free entry s1))"

declare free_loop_kasan.simps [code]

definition io_alloc_cache_free_kasan ::
  "'p callback \<Rightarrow> nat \<Rightarrow> 'p state \<Rightarrow> 'p state option" where
  "io_alloc_cache_free_kasan free sz s =
     (case free_loop_kasan free sz s of
        None \<Rightarrow> None
      | Some s1 \<Rightarrow> Some (s1\<lparr>cache := (cache s1)\<lparr>nr_cached := 0\<rparr>\<rparr>))"

subsection \<open>Sequences of operations\<close>

text \<open>
  A caller's sequence of calls on one cache. \<open>Get\<close> and \<open>Drain\<close> carry the
  \<^verbatim>\<open>size\<close> argument of the KASAN variant; the plain variant has no such parameter
  and ignores it. A sequence has no result (\<open>None\<close>) when a drain in it does not return.
\<close>

datatype operation = Init | Put addr | Get nat | Drain nat

datatype result = Done | Success bool | Entry ptr

fun step :: "'p callback \<Rightarrow> operation \<Rightarrow> 'p state \<Rightarrow> (result \<times> 'p state) option" where
  "step free Init s = Some (Done, io_alloc_cache_init s)"
| "step free (Put entry) s =
     (case io_alloc_cache_put entry s of (r, s1) \<Rightarrow> Some (Success r, s1))"
| "step free (Get sz) s =
     (case io_alloc_cache_get s of (e, s1) \<Rightarrow> Some (Entry e, s1))"
| "step free (Drain sz) s =
     (case io_alloc_cache_free free s of None \<Rightarrow> None | Some s1 \<Rightarrow> Some (Done, s1))"

fun step_kasan ::
  "'p callback \<Rightarrow> operation \<Rightarrow> 'p state \<Rightarrow> (result \<times> 'p state) option" where
  "step_kasan free Init s = Some (Done, io_alloc_cache_init_kasan s)"
| "step_kasan free (Put entry) s =
     (case io_alloc_cache_put_kasan entry s of (r, s1) \<Rightarrow> Some (Success r, s1))"
| "step_kasan free (Get sz) s =
     (case io_alloc_cache_get_kasan sz s of (e, s1) \<Rightarrow> Some (Entry e, s1))"
| "step_kasan free (Drain sz) s =
     (case io_alloc_cache_free_kasan free sz s of
        None \<Rightarrow> None
      | Some s1 \<Rightarrow> Some (Done, s1))"

text \<open>Running a sequence with a given step function, collecting the results.\<close>

fun run_with ::
  "(operation \<Rightarrow> 'p state \<Rightarrow> (result \<times> 'p state) option) \<Rightarrow>
   operation list \<Rightarrow> 'p state \<Rightarrow> (result list \<times> 'p state) option" where
  "run_with f [] s = Some ([], s)"
| "run_with f (x # xs) s =
     (case f x s of
        None \<Rightarrow> None
      | Some (r, s1) \<Rightarrow>
          (case run_with f xs s1 of None \<Rightarrow> None | Some (rs, t) \<Rightarrow> Some (r # rs, t)))"

definition run ::
  "'p callback \<Rightarrow> operation list \<Rightarrow> 'p state \<Rightarrow> (result list \<times> 'p state) option" where
  "run free = run_with (step free)"

definition run_kasan ::
  "'p callback \<Rightarrow> operation list \<Rightarrow> 'p state \<Rightarrow> (result list \<times> 'p state) option" where
  "run_kasan free = run_with (step_kasan free)"

subsection \<open>Auxiliary notions for the properties\<close>

text \<open>The same state with another payload in every entry.\<close>

definition with_payload :: "(addr \<Rightarrow> 'p) \<Rightarrow> 'p state \<Rightarrow> 'p state" where
  "with_payload p s = s\<lparr>mem := (mem s)\<lparr>payload := p\<rparr>\<rparr>"

text \<open>A concrete state for the examples: head, counter and link fields as given, the
  payload of the entry at \<open>a\<close> is \<open>10 * a\<close>, no call made so far.\<close>

definition example_state :: "ptr \<Rightarrow> 32 word \<Rightarrow> (addr \<Rightarrow> ptr) \<Rightarrow> nat state" where
  "example_state h n links =
     \<lparr>cache = \<lparr>list_next = h, nr_cached = n\<rparr>,
      mem = \<lparr>node_next = links, payload = (\<lambda>a. 10 * a)\<rparr>,
      calls = []\<rparr>"

text \<open>
  The chain that starts at the pointer \<open>p\<close>: \<open>chain links p xs\<close> holds when following the
  link fields from \<open>p\<close> visits exactly the entries \<open>xs\<close>, in this order, and then
  reaches \<^verbatim>\<open>NULL\<close>.
\<close>

primrec chain :: "(addr \<Rightarrow> ptr) \<Rightarrow> ptr \<Rightarrow> addr list \<Rightarrow> bool" where
  "chain links p [] = (p = None)"
| "chain links p (x # xs) = (p = Some x \<and> chain links (links x) xs)"

text \<open>The assumption on a \<^verbatim>\<open>free\<close> callback: of the link fields, it writes at most the
  one of the entry it is given.\<close>

definition writes_only_entry :: "'p callback \<Rightarrow> bool" where
  "writes_only_entry free = (\<forall>e m a. a \<noteq> e \<longrightarrow> node_next (free e m) a = node_next m a)"

text \<open>The entries the \<^verbatim>\<open>free\<close> callback was called on, in the order of the calls.\<close>

fun freed :: "call list \<Rightarrow> addr list" where
  "freed [] = []"
| "freed (Free_entry e # cs) = e # freed cs"
| "freed (c # cs) = freed cs"

text \<open>The calls the drain of the KASAN variant makes for the entries \<open>xs\<close>.\<close>

definition kasan_free_calls :: "nat \<Rightarrow> addr list \<Rightarrow> call list" where
  "kasan_free_calls sz xs = concat (map (\<lambda>e. [Kasan_unpoison_range e sz, Free_entry e]) xs)"

text \<open>A callback for the examples: it clears the link field and the payload of the
  entry it is given.\<close>

definition example_free :: "nat callback" where
  "example_free e m = m\<lparr>node_next := (node_next m)(e := None), payload := (payload m)(e := 0)\<rparr>"

text \<open>A callback that breaks the assumption: it clears the link field of every entry.\<close>

definition example_free_all :: "nat callback" where
  "example_free_all e m = m\<lparr>node_next := (\<lambda>_. None)\<rparr>"

text \<open>Two states agree up to the KASAN call-outs: the same cache, the same memory and
  the same calls of the \<^verbatim>\<open>free\<close> callback.\<close>

definition agree :: "'p state \<Rightarrow> 'p state \<Rightarrow> bool" where
  "agree s s' = (cache s = cache s' \<and> mem s = mem s' \<and> freed (calls s) = freed (calls s'))"

text \<open>
  The ledger of a sequence of operations, kept beside the cache: the entries that were
  put and not yet handed out or drained, newest first, and the number of gets that
  returned an entry since the last init or drain. \<open>ledger_step\<close> gives the result
  the ledger expects of an operation and the ledger after it: a put is accepted when
  the two numbers add up to less than 512, a get hands out the newest entry and counts
  it, init and drain start afresh.
\<close>

fun ledger_step :: "operation \<Rightarrow> addr list \<times> nat \<Rightarrow> result \<times> (addr list \<times> nat)" where
  "ledger_step Init (xs, g) = (Done, ([], 0))"
| "ledger_step (Put e) (xs, g) =
     (if length xs + g < 512 then (Success True, (e # xs, g)) else (Success False, (xs, g)))"
| "ledger_step (Get sz) (xs, g) =
     (case xs of [] \<Rightarrow> (Entry None, ([], g)) | x # ys \<Rightarrow> (Entry (Some x), (ys, Suc g)))"
| "ledger_step (Drain sz) (xs, g) = (Done, ([], 0))"

fun ledger :: "operation list \<Rightarrow> addr list \<times> nat \<Rightarrow> result list \<times> (addr list \<times> nat)" where
  "ledger [] a = ([], a)"
| "ledger (x # ops) a =
     (case ledger_step x a of (r, a1) \<Rightarrow> (case ledger ops a1 of (rs, a2) \<Rightarrow> (r # rs, a2)))"

text \<open>The precondition on a sequence: no entry is put while it is in the chain (a put
  that a full cache refuses does no harm).\<close>

fun op_fresh :: "operation \<Rightarrow> addr list \<times> nat \<Rightarrow> bool" where
  "op_fresh (Put e) (xs, g) = (e \<notin> set xs \<or> 512 \<le> length xs + g)"
| "op_fresh x a = True"

fun puts_fresh :: "operation list \<Rightarrow> addr list \<times> nat \<Rightarrow> bool" where
  "puts_fresh [] a = True"
| "puts_fresh (x # ops) a = (op_fresh x a \<and> puts_fresh ops (snd (ledger_step x a)))"

text \<open>The state matches a ledger: the chain from the head is the ledger's list, the
  counter is its length plus the ledger's number of gets, and this is at most 512.\<close>

definition matches :: "'p state \<Rightarrow> addr list \<times> nat \<Rightarrow> bool" where
  "matches s a =
     (chain (node_next (mem s)) (list_next (cache s)) (fst a) \<and>
      unat (nr_cached (cache s)) = length (fst a) + snd a \<and>
      length (fst a) + snd a \<le> 512)"

section \<open>Properties\<close>

subsection \<open>Basic facts about the operations\<close>

lemma step_Put:
  "step free (Put e) s =
     Some (Success (fst (io_alloc_cache_put e s)), snd (io_alloc_cache_put e s))"
  by (simp add: case_prod_unfold)

lemma step_Get:
  "step free (Get k) s =
     Some (Entry (fst (io_alloc_cache_get s)), snd (io_alloc_cache_get s))"
  by (simp add: case_prod_unfold)

lemma step_kasan_Put:
  "step_kasan free (Put e) s =
     Some (Success (fst (io_alloc_cache_put_kasan e s)), snd (io_alloc_cache_put_kasan e s))"
  by (simp add: case_prod_unfold)

lemma step_kasan_Get:
  "step_kasan free (Get k) s =
     Some (Entry (fst (io_alloc_cache_get_kasan k s)), snd (io_alloc_cache_get_kasan k s))"
  by (simp add: case_prod_unfold)

lemma put_fst: "fst (io_alloc_cache_put e s) = (nr_cached (cache s) < IO_ALLOC_CACHE_MAX)"
  by (simp add: io_alloc_cache_put_def Let_def)

lemma put_snd:
  "nr_cached (cache s) < IO_ALLOC_CACHE_MAX \<Longrightarrow>
   snd (io_alloc_cache_put e s) =
     s\<lparr>cache := \<lparr>list_next = Some e, nr_cached = nr_cached (cache s) + 1\<rparr>,
       mem := (mem s)\<lparr>node_next := (node_next (mem s))(e := list_next (cache s))\<rparr>\<rparr>"
  by (simp add: io_alloc_cache_put_def wq_stack_add_head_def Let_def)

lemma put_kasan_fst:
  "fst (io_alloc_cache_put_kasan e s) = (nr_cached (cache s) < IO_ALLOC_CACHE_MAX)"
  by (simp add: io_alloc_cache_put_kasan_def Let_def)

lemma put_kasan_snd:
  "nr_cached (cache s) < IO_ALLOC_CACHE_MAX \<Longrightarrow>
   snd (io_alloc_cache_put_kasan e s) =
     s\<lparr>cache := \<lparr>list_next = Some e, nr_cached = nr_cached (cache s) + 1\<rparr>,
       mem := (mem s)\<lparr>node_next := (node_next (mem s))(e := list_next (cache s))\<rparr>,
       calls := calls s @ [Kasan_slab_free_mempool e]\<rparr>"
  by (simp add: io_alloc_cache_put_kasan_def wq_stack_add_head_def call_out_def Let_def)

subsection \<open>Chains\<close>

lemma chain_unique: "chain links p xs \<Longrightarrow> chain links p ys \<Longrightarrow> xs = ys"
proof (induction xs arbitrary: p ys)
  case Nil
  then show ?case by (cases ys) simp_all
next
  case (Cons x xs)
  then show ?case by (cases ys) auto
qed

lemma chain_suffix: "chain links p (as @ b # bs) \<Longrightarrow> chain links (links b) bs"
  by (induction as arbitrary: p) simp_all

lemma chain_distinct: "chain links p xs \<Longrightarrow> distinct xs"
proof (induction xs arbitrary: p)
  case Nil
  show ?case by simp
next
  case (Cons x xs)
  then have rest: "chain links (links x) xs" and "distinct xs"
    by auto
  have "x \<notin> set xs"
  proof
    assume "x \<in> set xs"
    then obtain as bs where split: "xs = as @ x # bs"
      by (auto dest: split_list)
    with rest have "chain links (links x) bs"
      using chain_suffix by blast
    with rest have "xs = bs"
      by (rule chain_unique)
    with split show False
      by simp
  qed
  with \<open>distinct xs\<close> show ?case by simp
qed

lemma chain_cong: "\<forall>a \<in> set xs. links a = links' a \<Longrightarrow> chain links p xs = chain links' p xs"
  by (induction xs arbitrary: p) simp_all

lemma freed_append: "freed (cs @ ds) = freed cs @ freed ds"
  by (induction cs rule: freed.induct) simp_all

lemma freed_map_Free: "freed (map Free_entry xs) = xs"
  by (induction xs) simp_all

subsection \<open>The drain loops\<close>

lemma writes_only_entryD:
  "writes_only_entry free \<Longrightarrow> a \<noteq> e \<Longrightarrow> node_next (free e m) a = node_next m a"
  by (simp add: writes_only_entry_def)

lemma chain_after_free:
  assumes "chain (node_next m) (Some x) (x # xs)" and "writes_only_entry free"
  shows "chain (node_next (free x m)) (node_next m x) xs"
proof -
  from assms(1) have "distinct (x # xs)"
    by (rule chain_distinct)
  then have "a \<noteq> x" if "a \<in> set xs" for a
    using that by auto
  with assms(2) have "\<forall>a \<in> set xs. node_next (free x m) a = node_next m a"
    by (simp add: writes_only_entryD)
  then have "chain (node_next (free x m)) p xs = chain (node_next m) p xs" for p
    by (rule chain_cong)
  with assms(1) show ?thesis
    by simp
qed

lemma free_loop_chain:
  assumes "chain (node_next (mem s)) (list_next (cache s)) xs" and "writes_only_entry free"
  shows "free_loop free s =
           Some \<lparr>cache = \<lparr>list_next = None, nr_cached = nr_cached (cache s)\<rparr>,
                 mem = foldl (\<lambda>m e. free e m) (mem s) xs,
                 calls = calls s @ map Free_entry xs\<rparr>"
  using assms(1)
proof (induction xs arbitrary: s)
  case Nil
  then show ?case
    by (subst free_loop.simps) simp
next
  case (Cons x xs)
  let ?s1 = "call_free free x (s\<lparr>cache := (cache s)\<lparr>list_next := node_next (mem s) x\<rparr>\<rparr>)"
  from Cons.prems have head: "list_next (cache s) = Some x"
    and rest: "chain (node_next (mem s)) (node_next (mem s) x) xs"
    by simp_all
  from Cons.prems head assms(2)
  have "chain (node_next (free x (mem s))) (node_next (mem s) x) xs"
    by (simp add: chain_after_free)
  then have "chain (node_next (mem ?s1)) (list_next (cache ?s1)) xs"
    by (simp add: call_free_def call_out_def)
  then have "free_loop free ?s1 =
           Some \<lparr>cache = \<lparr>list_next = None, nr_cached = nr_cached (cache ?s1)\<rparr>,
                 mem = foldl (\<lambda>m e. free e m) (mem ?s1) xs,
                 calls = calls ?s1 @ map Free_entry xs\<rparr>"
    by (rule Cons.IH)
  moreover have "free_loop free s = free_loop free ?s1"
    using head by (subst free_loop.simps) simp
  ultimately show ?case
    by (simp add: call_free_def call_out_def)
qed

lemma freed_kasan_free_calls: "freed (kasan_free_calls sz xs) = xs"
  by (induction xs) (simp_all add: kasan_free_calls_def)

lemma get_kasan_Some:
  "list_next (cache s) = Some x \<Longrightarrow>
   io_alloc_cache_get_kasan sz s =
     (Some x, s\<lparr>calls := calls s @ [Kasan_unpoison_range x sz],
                cache := (cache s)\<lparr>list_next := node_next (mem s) x\<rparr>\<rparr>)"
  by (simp add: io_alloc_cache_get_kasan_def call_out_def Let_def)

lemma get_kasan_None:
  "list_next (cache s) = None \<Longrightarrow> io_alloc_cache_get_kasan sz s = (None, s)"
  by (simp add: io_alloc_cache_get_kasan_def)

lemma free_loop_kasan_chain:
  assumes "chain (node_next (mem s)) (list_next (cache s)) xs" and "writes_only_entry free"
  shows "free_loop_kasan free sz s =
           Some \<lparr>cache = \<lparr>list_next = None, nr_cached = nr_cached (cache s)\<rparr>,
                 mem = foldl (\<lambda>m e. free e m) (mem s) xs,
                 calls = calls s @ kasan_free_calls sz xs\<rparr>"
  using assms(1)
proof (induction xs arbitrary: s)
  case Nil
  then show ?case
    by (subst free_loop_kasan.simps) (simp add: get_kasan_None kasan_free_calls_def)
next
  case (Cons x xs)
  let ?s1 = "call_free free x (snd (io_alloc_cache_get_kasan sz s))"
  from Cons.prems have head: "list_next (cache s) = Some x"
    and rest: "chain (node_next (mem s)) (node_next (mem s) x) xs"
    by simp_all
  from Cons.prems head assms(2)
  have "chain (node_next (free x (mem s))) (node_next (mem s) x) xs"
    by (simp add: chain_after_free)
  with head have "chain (node_next (mem ?s1)) (list_next (cache ?s1)) xs"
    by (simp add: get_kasan_Some call_free_def call_out_def)
  then have "free_loop_kasan free sz ?s1 =
           Some \<lparr>cache = \<lparr>list_next = None, nr_cached = nr_cached (cache ?s1)\<rparr>,
                 mem = foldl (\<lambda>m e. free e m) (mem ?s1) xs,
                 calls = calls ?s1 @ kasan_free_calls sz xs\<rparr>"
    by (rule Cons.IH)
  moreover have "free_loop_kasan free sz s = free_loop_kasan free sz ?s1"
    using head by (subst free_loop_kasan.simps) (simp add: get_kasan_Some)
  ultimately show ?case
    using head
    by (simp add: get_kasan_Some call_free_def call_out_def kasan_free_calls_def)
qed

lemma free_loop_exit: "free_loop free s = Some t \<Longrightarrow> list_next (cache t) = None"
proof (erule free_loop.raw_induct [rotated])
  fix f :: "'a callback \<Rightarrow> 'a state \<Rightarrow> 'a state option" and free s t
  assume IH: "\<And>free s t. f free s = Some t \<Longrightarrow> list_next (cache t) = None"
    and step: "(case list_next (cache s) of
        None \<Rightarrow> Some s
      | Some node \<Rightarrow>
          f free (call_free free node
            (s\<lparr>cache := (cache s)\<lparr>list_next := node_next (mem s) node\<rparr>\<rparr>))) = Some t"
  show "list_next (cache t) = None"
  proof (cases "list_next (cache s)")
    case None
    with step show ?thesis by simp
  next
    case (Some node)
    with step IH show ?thesis by simp
  qed
qed

lemma free_loop_kasan_exit:
  "free_loop_kasan free sz s = Some t \<Longrightarrow> list_next (cache t) = None"
proof (erule free_loop_kasan.raw_induct [rotated])
  fix f :: "'a callback \<Rightarrow> nat \<Rightarrow> 'a state \<Rightarrow> 'a state option" and free sz s t
  assume IH: "\<And>free sz s t. f free sz s = Some t \<Longrightarrow> list_next (cache t) = None"
    and step: "(case io_alloc_cache_get_kasan sz s of
        (None, s1) \<Rightarrow> Some s1
      | (Some entry, s1) \<Rightarrow> f free sz (call_free free entry s1)) = Some t"
  show "list_next (cache t) = None"
  proof (cases "list_next (cache s)")
    case None
    with step show ?thesis by (simp add: get_kasan_None)
  next
    case (Some node)
    with step IH show ?thesis by (simp add: get_kasan_Some)
  qed
qed

lemma free_loop_empty: "list_next (cache s) = None \<Longrightarrow> free_loop free s = Some s"
  by (subst free_loop.simps) simp

lemma free_loop_kasan_empty:
  "list_next (cache s) = None \<Longrightarrow> free_loop_kasan free sz s = Some s"
  by (subst free_loop_kasan.simps) (simp add: get_kasan_None)

lemma free_Some_head:
  "io_alloc_cache_free free s = Some t \<Longrightarrow> list_next (cache t) = None \<and> nr_cached (cache t) = 0"
  by (auto simp: io_alloc_cache_free_def split: option.splits dest: free_loop_exit)

lemma free_kasan_Some_head:
  "io_alloc_cache_free_kasan free sz s = Some t \<Longrightarrow>
   list_next (cache t) = None \<and> nr_cached (cache t) = 0"
  by (auto simp: io_alloc_cache_free_kasan_def split: option.splits dest: free_loop_kasan_exit)

lemma free_empty:
  "list_next (cache s) = None \<Longrightarrow>
   io_alloc_cache_free free s = Some (s\<lparr>cache := (cache s)\<lparr>nr_cached := 0\<rparr>\<rparr>)"
  by (simp add: io_alloc_cache_free_def free_loop_empty)

lemma free_kasan_empty:
  "list_next (cache s) = None \<Longrightarrow>
   io_alloc_cache_free_kasan free sz s = Some (s\<lparr>cache := (cache s)\<lparr>nr_cached := 0\<rparr>\<rparr>)"
  by (simp add: io_alloc_cache_free_kasan_def free_loop_kasan_empty)

lemma free_chain:
  assumes "chain (node_next (mem s)) (list_next (cache s)) xs" and "writes_only_entry free"
  shows "io_alloc_cache_free free s =
           Some \<lparr>cache = \<lparr>list_next = None, nr_cached = 0\<rparr>,
                 mem = foldl (\<lambda>m e. free e m) (mem s) xs,
                 calls = calls s @ map Free_entry xs\<rparr>"
  by (simp add: io_alloc_cache_free_def free_loop_chain [OF assms])

lemma free_kasan_chain:
  assumes "chain (node_next (mem s)) (list_next (cache s)) xs" and "writes_only_entry free"
  shows "io_alloc_cache_free_kasan free sz s =
           Some \<lparr>cache = \<lparr>list_next = None, nr_cached = 0\<rparr>,
                 mem = foldl (\<lambda>m e. free e m) (mem s) xs,
                 calls = calls s @ kasan_free_calls sz xs\<rparr>"
  by (simp add: io_alloc_cache_free_kasan_def free_loop_kasan_chain [OF assms])

lemma example_free_frame: "writes_only_entry example_free"
  by (simp add: writes_only_entry_def example_free_def)

lemma reset_count_idle:
  "nr_cached (cache t) = 0 \<Longrightarrow> t\<lparr>cache := (cache t)\<lparr>nr_cached := 0\<rparr>\<rparr> = t"
  by (cases t, cases "cache t") simp

subsection \<open>The counter under a sequence of puts\<close>

lemma max_unat: "unat IO_ALLOC_CACHE_MAX = 512"
  by (simp add: IO_ALLOC_CACHE_MAX_def)

lemma below_max: "(w < IO_ALLOC_CACHE_MAX) = (unat w < 512)"
  by (simp add: word_less_nat_alt max_unat)

lemma unat_incr: "unat (w :: 32 word) < 512 \<Longrightarrow> unat (w + 1) = unat w + 1"
  by (simp add: unat_add_lem [THEN iffD1])

lemma put_count:
  "unat (nr_cached (cache (snd (io_alloc_cache_put e s)))) =
     (if unat (nr_cached (cache s)) < 512 then unat (nr_cached (cache s)) + 1
      else unat (nr_cached (cache s)))"
  by (simp add: io_alloc_cache_put_def wq_stack_add_head_def Let_def below_max unat_incr)

lemma put_kasan_count:
  "unat (nr_cached (cache (snd (io_alloc_cache_put_kasan e s)))) =
     (if unat (nr_cached (cache s)) < 512 then unat (nr_cached (cache s)) + 1
      else unat (nr_cached (cache s)))"
  by (simp add: io_alloc_cache_put_kasan_def wq_stack_add_head_def call_out_def Let_def
      below_max unat_incr)

lemma run_with_puts:
  assumes put: "\<And>e s. \<exists>s'. f (Put e) s = Some (Success (unat (nr_cached (cache s)) < 512), s') \<and>
      unat (nr_cached (cache s')) =
        (if unat (nr_cached (cache s)) < 512 then unat (nr_cached (cache s)) + 1
         else unat (nr_cached (cache s)))"
    and "unat (nr_cached (cache s)) = n" and "n \<le> 512"
  shows "\<exists>t. run_with f (map Put es) s =
           Some (replicate (min (length es) (512 - n)) (Success True) @
                 replicate (length es - (512 - n)) (Success False), t) \<and>
         unat (nr_cached (cache t)) = min (n + length es) 512"
  using assms(2,3)
proof (induction es arbitrary: s n)
  case Nil
  then show ?case by simp
next
  case (Cons e es)
  from put [of e s] obtain s1 where
    s1: "f (Put e) s = Some (Success (unat (nr_cached (cache s)) < 512), s1)"
    and n1: "unat (nr_cached (cache s1)) =
        (if unat (nr_cached (cache s)) < 512 then unat (nr_cached (cache s)) + 1
         else unat (nr_cached (cache s)))"
    by blast
  show ?case
  proof (cases "n < 512")
    case True
    with n1 Cons.prems have "unat (nr_cached (cache s1)) = Suc n" and "Suc n \<le> 512"
      by simp_all
    from Cons.IH [OF this] obtain t where
      "run_with f (map Put es) s1 =
           Some (replicate (min (length es) (512 - Suc n)) (Success True) @
                 replicate (length es - (512 - Suc n)) (Success False), t)"
      and "unat (nr_cached (cache t)) = min (Suc n + length es) 512"
      by blast
    moreover from True have "min (Suc (length es)) (512 - n) = Suc (min (length es) (512 - Suc n))"
      and "Suc (length es) - (512 - n) = length es - (512 - Suc n)"
      by simp_all
    ultimately show ?thesis
      using s1 True Cons.prems by simp
  next
    case False
    with Cons.prems have n: "n = 512"
      by simp
    with n1 Cons.prems have "unat (nr_cached (cache s1)) = 512" and "(512::nat) \<le> 512"
      by simp_all
    from Cons.IH [OF this] obtain t where
      "run_with f (map Put es) s1 =
           Some (replicate (min (length es) (512 - 512)) (Success True) @
                 replicate (length es - (512 - 512)) (Success False), t)"
      and "unat (nr_cached (cache t)) = min (512 + length es) 512"
      by blast
    then show ?thesis
      using s1 n Cons.prems by simp
  qed
qed

lemma run_puts:
  assumes "unat (nr_cached (cache s)) = n" and "n \<le> 512"
  shows "\<exists>t. run free (map Put es) s =
           Some (replicate (min (length es) (512 - n)) (Success True) @
                 replicate (length es - (512 - n)) (Success False), t) \<and>
         unat (nr_cached (cache t)) = min (n + length es) 512"
  unfolding run_def
  by (rule run_with_puts [OF _ assms]) (simp add: step_Put put_fst below_max put_count del: step.simps)

lemma run_kasan_puts:
  assumes "unat (nr_cached (cache s)) = n" and "n \<le> 512"
  shows "\<exists>t. run_kasan free (map Put es) s =
           Some (replicate (min (length es) (512 - n)) (Success True) @
                 replicate (length es - (512 - n)) (Success False), t) \<and>
         unat (nr_cached (cache t)) = min (n + length es) 512"
  unfolding run_kasan_def
  by (rule run_with_puts [OF _ assms]) (simp add: step_kasan_Put put_kasan_fst below_max put_kasan_count del: step_kasan.simps)

lemma init_count: "unat (nr_cached (cache (io_alloc_cache_init s))) = 0"
  "unat (nr_cached (cache (io_alloc_cache_init_kasan s))) = 0"
  by (simp_all add: io_alloc_cache_init_def io_alloc_cache_init_kasan_def)

subsection \<open>The two variants step by step\<close>

lemma agree_refl: "agree s s"
  by (simp add: agree_def)

lemma agree_call_free:
  "agree s s' \<Longrightarrow> agree (call_free free x s) (call_free free x s')"
  by (simp add: agree_def call_free_def call_out_def freed_append)

lemma agree_get:
  assumes "agree s s'"
  shows "fst (io_alloc_cache_get_kasan sz s) = fst (io_alloc_cache_get s') \<and>
         agree (snd (io_alloc_cache_get_kasan sz s)) (snd (io_alloc_cache_get s'))"
  using assms
  by (cases "list_next (cache s')")
     (simp_all add: agree_def get_kasan_Some get_kasan_None io_alloc_cache_get_def freed_append)

lemma agree_put:
  assumes "agree s s'"
  shows "fst (io_alloc_cache_put_kasan e s) = fst (io_alloc_cache_put e s') \<and>
         agree (snd (io_alloc_cache_put_kasan e s)) (snd (io_alloc_cache_put e s'))"
  using assms
  by (cases "nr_cached (cache s') < IO_ALLOC_CACHE_MAX")
     (simp_all add: agree_def io_alloc_cache_put_def io_alloc_cache_put_kasan_def
        wq_stack_add_head_def call_out_def Let_def freed_append)

lemma agree_init:
  "agree s s' \<Longrightarrow> agree (io_alloc_cache_init_kasan s) (io_alloc_cache_init s')"
  by (simp add: agree_def io_alloc_cache_init_def io_alloc_cache_init_kasan_def)

lemma loop_kasan_to_plain:
  "free_loop_kasan free sz s = Some t \<Longrightarrow>
   \<forall>s'. agree s s' \<longrightarrow> (\<exists>t'. free_loop free s' = Some t' \<and> agree t t')"
proof (erule free_loop_kasan.raw_induct [rotated], intro allI impI)
  fix f :: "'a callback \<Rightarrow> nat \<Rightarrow> 'a state \<Rightarrow> 'a state option" and free sz s t s'
  assume IH: "\<And>free sz s t. f free sz s = Some t \<Longrightarrow>
      \<forall>s'. agree s s' \<longrightarrow> (\<exists>t'. free_loop free s' = Some t' \<and> agree t t')"
    and step: "(case io_alloc_cache_get_kasan sz s of
        (None, s1) \<Rightarrow> Some s1
      | (Some entry, s1) \<Rightarrow> f free sz (call_free free entry s1)) = Some t"
    and rel: "agree s s'"
  from rel have same: "list_next (cache s') = list_next (cache s)"
    by (simp add: agree_def)
  show "\<exists>t'. free_loop free s' = Some t' \<and> agree t t'"
  proof (cases "list_next (cache s)")
    case None
    with step same rel show ?thesis
      by (simp add: get_kasan_None free_loop_empty)
  next
    case (Some x)
    let ?s1 = "call_free free x (snd (io_alloc_cache_get_kasan sz s))"
    let ?s1' = "call_free free x (snd (io_alloc_cache_get s'))"
    from step Some have "f free sz ?s1 = Some t"
      by (simp add: get_kasan_Some)
    moreover from rel have "agree ?s1 ?s1'"
      by (simp add: agree_get agree_call_free)
    ultimately obtain t' where "free_loop free ?s1' = Some t'" and "agree t t'"
      using IH by blast
    moreover from Some same have "free_loop free s' = free_loop free ?s1'"
      by (subst free_loop.simps) (simp add: io_alloc_cache_get_def)
    ultimately show ?thesis
      by simp
  qed
qed

lemma loop_plain_to_kasan:
  "free_loop free s' = Some t' \<Longrightarrow>
   \<forall>s. agree s s' \<longrightarrow> (\<exists>t. free_loop_kasan free sz s = Some t \<and> agree t t')"
proof (erule free_loop.raw_induct [rotated], intro allI impI)
  fix f :: "'a callback \<Rightarrow> 'a state \<Rightarrow> 'a state option" and free s' t' s
  assume IH: "\<And>free s' t'. f free s' = Some t' \<Longrightarrow>
      \<forall>s. agree s s' \<longrightarrow> (\<exists>t. free_loop_kasan free sz s = Some t \<and> agree t t')"
    and step: "(case list_next (cache s') of
        None \<Rightarrow> Some s'
      | Some node \<Rightarrow>
          f free (call_free free node
            (s'\<lparr>cache := (cache s')\<lparr>list_next := node_next (mem s') node\<rparr>\<rparr>))) = Some t'"
    and rel: "agree s s'"
  from rel have same: "list_next (cache s) = list_next (cache s')"
    by (simp add: agree_def)
  show "\<exists>t. free_loop_kasan free sz s = Some t \<and> agree t t'"
  proof (cases "list_next (cache s')")
    case None
    with step same rel show ?thesis
      by (simp add: free_loop_kasan_empty)
  next
    case (Some x)
    let ?s1 = "call_free free x (snd (io_alloc_cache_get_kasan sz s))"
    let ?s1' = "call_free free x (snd (io_alloc_cache_get s'))"
    from step Some have "f free ?s1' = Some t'"
      by (simp add: io_alloc_cache_get_def)
    moreover from rel have "agree ?s1 ?s1'"
      by (simp add: agree_get agree_call_free)
    ultimately obtain t where "free_loop_kasan free sz ?s1 = Some t" and "agree t t'"
      using IH by blast
    moreover from Some same have "free_loop_kasan free sz s = free_loop_kasan free sz ?s1"
      by (subst free_loop_kasan.simps) (simp add: get_kasan_Some)
    ultimately show ?thesis
      by simp
  qed
qed

lemma free_sim:
  assumes "agree s s'"
  shows "(io_alloc_cache_free_kasan free sz s = None \<and> io_alloc_cache_free free s' = None) \<or>
         (\<exists>t t'. io_alloc_cache_free_kasan free sz s = Some t \<and>
                 io_alloc_cache_free free s' = Some t' \<and> agree t t')"
proof (cases "free_loop_kasan free sz s")
  case None
  have "free_loop free s' = None"
  proof (cases "free_loop free s'")
    case (Some t')
    with assms loop_plain_to_kasan obtain t where "free_loop_kasan free sz s = Some t"
      by blast
    with None show ?thesis by simp
  qed simp
  with None show ?thesis
    by (simp add: io_alloc_cache_free_def io_alloc_cache_free_kasan_def)
next
  case (Some t)
  with assms loop_kasan_to_plain obtain t' where "free_loop free s' = Some t'" and "agree t t'"
    by blast
  with Some show ?thesis
    by (simp add: io_alloc_cache_free_def io_alloc_cache_free_kasan_def agree_def)
qed

lemma step_sim:
  assumes "agree s s'"
  shows "(step_kasan free x s = None \<and> step free x s' = None) \<or>
         (\<exists>r t t'. step_kasan free x s = Some (r, t) \<and> step free x s' = Some (r, t') \<and>
                   agree t t')"
proof (cases x)
  case Init
  with assms show ?thesis
    by (simp add: agree_init)
next
  case (Put e)
  with agree_put [OF assms, of e] show ?thesis
    by (simp add: case_prod_unfold)
next
  case (Get sz)
  with agree_get [OF assms, of sz] show ?thesis
    by (simp add: case_prod_unfold)
next
  case (Drain sz)
  with free_sim [OF assms, of free sz] show ?thesis
    by auto
qed

lemma run_sim:
  assumes "agree s s'"
  shows "(run_with (step_kasan free) ops s = None \<and> run_with (step free) ops s' = None) \<or>
         (\<exists>rs t t'. run_with (step_kasan free) ops s = Some (rs, t) \<and>
                    run_with (step free) ops s' = Some (rs, t') \<and> agree t t')"
  using assms
proof (induction ops arbitrary: s s')
  case Nil
  then show ?case by simp
next
  case (Cons x ops)
  from step_sim [OF Cons.prems, of free x] show ?case
  proof
    assume "step_kasan free x s = None \<and> step free x s' = None"
    then show ?thesis by simp
  next
    assume "\<exists>r t t'. step_kasan free x s = Some (r, t) \<and> step free x s' = Some (r, t') \<and>
                   agree t t'"
    then obtain r s1 s1' where one: "step_kasan free x s = Some (r, s1)"
      "step free x s' = Some (r, s1')" and "agree s1 s1'"
      by blast
    from Cons.IH [OF this(3)] one show ?thesis
      by auto
  qed
qed

subsection \<open>The ledger invariant\<close>

lemma chain_push:
  assumes "chain links p xs" and "e \<notin> set xs"
  shows "chain (links(e := p)) (Some e) (e # xs)"
proof -
  from assms(2) have "\<forall>a \<in> set xs. (links(e := p)) a = links a"
    by auto
  then have "chain (links(e := p)) p xs = chain links p xs"
    by (rule chain_cong)
  with assms(1) show ?thesis
    by simp
qed

lemma put_matches:
  assumes "matches s (xs, g)" and "op_fresh (Put e) (xs, g)"
  shows "fst (io_alloc_cache_put e s) = (length xs + g < 512) \<and>
         matches (snd (io_alloc_cache_put e s))
           (if length xs + g < 512 then (e # xs, g) else (xs, g)) \<and>
         fst (io_alloc_cache_put_kasan e s) = (length xs + g < 512) \<and>
         matches (snd (io_alloc_cache_put_kasan e s))
           (if length xs + g < 512 then (e # xs, g) else (xs, g))"
proof (cases "length xs + g < 512")
  case True
  with assms have room: "nr_cached (cache s) < IO_ALLOC_CACHE_MAX"
    and count: "unat (nr_cached (cache s) + 1) = Suc (length xs + g)"
    and new: "e \<notin> set xs" and c: "chain (node_next (mem s)) (list_next (cache s)) xs"
    by (simp_all add: matches_def below_max unat_incr)
  have "chain ((node_next (mem s))(e := list_next (cache s))) (Some e) (e # xs)"
    using c new by (rule chain_push)
  with True room count show ?thesis
    by (simp add: put_fst put_snd put_kasan_fst put_kasan_snd matches_def)
next
  case False
  with assms have "\<not> nr_cached (cache s) < IO_ALLOC_CACHE_MAX"
    by (simp add: matches_def below_max)
  with False assms(1) show ?thesis
    by (simp add: io_alloc_cache_put_def io_alloc_cache_put_kasan_def)
qed

lemma get_matches:
  assumes "matches s (xs, g)"
  shows "fst (io_alloc_cache_get s) = (case xs of [] \<Rightarrow> None | x # ys \<Rightarrow> Some x) \<and>
         matches (snd (io_alloc_cache_get s)) (case xs of [] \<Rightarrow> ([], g) | x # ys \<Rightarrow> (ys, Suc g)) \<and>
         fst (io_alloc_cache_get_kasan sz s) = (case xs of [] \<Rightarrow> None | x # ys \<Rightarrow> Some x) \<and>
         matches (snd (io_alloc_cache_get_kasan sz s))
           (case xs of [] \<Rightarrow> ([], g) | x # ys \<Rightarrow> (ys, Suc g))"
  using assms
  by (cases xs) (simp_all add: matches_def io_alloc_cache_get_def get_kasan_Some get_kasan_None)

lemma free_matches:
  assumes "matches s (xs, g)" and "writes_only_entry free"
  shows "(\<exists>t. io_alloc_cache_free free s = Some t \<and> matches t ([], 0)) \<and>
         (\<exists>t. io_alloc_cache_free_kasan free sz s = Some t \<and> matches t ([], 0))"
proof -
  from assms(1) have c: "chain (node_next (mem s)) (list_next (cache s)) xs"
    by (simp add: matches_def)
  show ?thesis
    by (simp add: free_chain [OF c assms(2)] free_kasan_chain [OF c assms(2)] matches_def)
qed

lemma init_matches:
  "matches (io_alloc_cache_init s) ([], 0)" "matches (io_alloc_cache_init_kasan s) ([], 0)"
  by (simp_all add: matches_def io_alloc_cache_init_def io_alloc_cache_init_kasan_def)

lemma step_matches:
  assumes "matches s a" and "op_fresh x a" and "writes_only_entry free"
  shows "(\<exists>t. step free x s = Some (fst (ledger_step x a), t) \<and>
              matches t (snd (ledger_step x a))) \<and>
         (\<exists>t. step_kasan free x s = Some (fst (ledger_step x a), t) \<and>
              matches t (snd (ledger_step x a)))"
proof (cases a)
  case (Pair xs g)
  show ?thesis
  proof (cases x)
    case Init
    with Pair show ?thesis
      by (simp add: init_matches)
  next
    case (Put e)
    with Pair assms put_matches [of s xs g e] show ?thesis
      by (cases "length xs + g < 512") (simp_all add: case_prod_unfold)
  next
    case (Get sz)
    with Pair assms get_matches [of s xs g sz] show ?thesis
      by (cases xs) (simp_all add: case_prod_unfold)
  next
    case (Drain sz)
    with Pair assms free_matches [of s xs g free sz] show ?thesis
      by auto
  qed
qed

lemma run_with_matches:
  assumes step: "\<And>x s a. matches s a \<Longrightarrow> op_fresh x a \<Longrightarrow>
      \<exists>t. f x s = Some (fst (ledger_step x a), t) \<and> matches t (snd (ledger_step x a))"
    and "matches s a" and "puts_fresh ops a"
  shows "\<exists>t. run_with f ops s = Some (fst (ledger ops a), t) \<and> matches t (snd (ledger ops a))"
  using assms(2,3)
proof (induction ops arbitrary: s a)
  case Nil
  then show ?case by simp
next
  case (Cons x ops)
  then have "matches s a" and "op_fresh x a" and rest: "puts_fresh ops (snd (ledger_step x a))"
    by simp_all
  with step obtain s1 where one: "f x s = Some (fst (ledger_step x a), s1)"
    and "matches s1 (snd (ledger_step x a))"
    by blast
  from Cons.IH [OF this(2) rest] obtain t where
    "run_with f ops s1 = Some (fst (ledger ops (snd (ledger_step x a))), t)"
    and "matches t (snd (ledger ops (snd (ledger_step x a))))"
    by blast
  with one show ?case
    by (simp add: case_prod_unfold)
qed

subsection \<open>A full cache refuses an entry\<close>

text \<open>
  C6. In every state whose counter is at least \<open>IO_ALLOC_CACHE_MAX\<close>, a put of any
  entry returns failure and the state after it is the state before it: head, counter,
  every link field (the chain and the entry's own) and the recorded call-outs are
  unchanged, so no KASAN call-out is made. Both variants.
\<close>

theorem put_full_no_mutation:
  assumes "IO_ALLOC_CACHE_MAX \<le> nr_cached (cache s)"
  shows "io_alloc_cache_put entry s = (False, s) \<and>
         io_alloc_cache_put_kasan entry s = (False, s)"
  using assms by (simp add: io_alloc_cache_put_def io_alloc_cache_put_kasan_def)

theorem put_full_no_mutation_witness:
  "IO_ALLOC_CACHE_MAX \<le> nr_cached (cache (example_state (Some 4) 512 (\<lambda>_. None))) \<and>
   io_alloc_cache_put 7 (example_state (Some 4) 512 (\<lambda>_. None)) =
     (False, example_state (Some 4) 512 (\<lambda>_. None)) \<and>
   io_alloc_cache_put_kasan 7 (example_state (Some 4) 512 (\<lambda>_. None)) =
     (False, example_state (Some 4) 512 (\<lambda>_. None))"
proof -
  have full: "IO_ALLOC_CACHE_MAX \<le> nr_cached (cache (example_state (Some 4) 512 (\<lambda>_. None)))"
    by (simp add: example_state_def IO_ALLOC_CACHE_MAX_def)
  from full put_full_no_mutation [OF full, of 7] show ?thesis by simp
qed

subsection \<open>Get on an empty chain\<close>

text \<open>
  C7. In every state whose head link is \<^verbatim>\<open>NULL\<close>, get returns \<^verbatim>\<open>NULL\<close> and leaves
  the whole state (head and counter included) unchanged. Both variants.
\<close>

theorem get_empty:
  assumes "list_next (cache s) = None"
  shows "io_alloc_cache_get s = (None, s) \<and> io_alloc_cache_get_kasan sz s = (None, s)"
  using assms by (simp add: io_alloc_cache_get_def io_alloc_cache_get_kasan_def)

theorem get_empty_witness:
  "list_next (cache (example_state None 3 (\<lambda>_. None))) = None \<and>
   io_alloc_cache_get (example_state None 3 (\<lambda>_. None)) = (None, example_state None 3 (\<lambda>_. None)) \<and>
   io_alloc_cache_get_kasan 64 (example_state None 3 (\<lambda>_. None)) =
     (None, example_state None 3 (\<lambda>_. None))"
proof -
  have empty: "list_next (cache (example_state None 3 (\<lambda>_. None))) = None"
    by (simp add: example_state_def)
  from empty get_empty [OF empty, of 64] show ?thesis by simp
qed

subsection \<open>Get leaves the counter alone\<close>

text \<open>
  C8. Get never changes \<open>nr_cached\<close>; when the head link is the entry \<open>e\<close>, get
  returns \<open>e\<close> and the new head link is the link stored in \<open>e\<close>. Both variants.
\<close>

theorem get_keeps_count:
  "nr_cached (cache (snd (io_alloc_cache_get s))) = nr_cached (cache s) \<and>
   nr_cached (cache (snd (io_alloc_cache_get_kasan sz s))) = nr_cached (cache s) \<and>
   (list_next (cache s) = Some e \<longrightarrow>
      fst (io_alloc_cache_get s) = Some e \<and>
      list_next (cache (snd (io_alloc_cache_get s))) = node_next (mem s) e \<and>
      fst (io_alloc_cache_get_kasan sz s) = Some e \<and>
      list_next (cache (snd (io_alloc_cache_get_kasan sz s))) = node_next (mem s) e)"
  by (simp add: io_alloc_cache_get_def io_alloc_cache_get_kasan_def call_out_def
      split: option.split)

theorem get_keeps_count_witness:
  "list_next (cache (example_state (Some 2) 2 ((\<lambda>_. None)(2 := Some 1)))) = Some 2 \<and>
   fst (io_alloc_cache_get (example_state (Some 2) 2 ((\<lambda>_. None)(2 := Some 1)))) = Some 2 \<and>
   list_next (cache (snd (io_alloc_cache_get
     (example_state (Some 2) 2 ((\<lambda>_. None)(2 := Some 1)))))) = Some 1 \<and>
   nr_cached (cache (snd (io_alloc_cache_get
     (example_state (Some 2) 2 ((\<lambda>_. None)(2 := Some 1)))))) = 2 \<and>
   fst (io_alloc_cache_get_kasan 64 (example_state (Some 2) 2 ((\<lambda>_. None)(2 := Some 1)))) = Some 2 \<and>
   list_next (cache (snd (io_alloc_cache_get_kasan 64
     (example_state (Some 2) 2 ((\<lambda>_. None)(2 := Some 1)))))) = Some 1 \<and>
   nr_cached (cache (snd (io_alloc_cache_get_kasan 64
     (example_state (Some 2) 2 ((\<lambda>_. None)(2 := Some 1)))))) = 2"
proof -
  let ?s = "example_state (Some 2) 2 ((\<lambda>_. None)(2 := Some 1))"
  have head: "list_next (cache ?s) = Some 2"
    and link: "node_next (mem ?s) 2 = Some 1"
    and count: "nr_cached (cache ?s) = 2"
    by (simp_all add: example_state_def)
  from get_keeps_count [of ?s 64 2] head
  have "nr_cached (cache (snd (io_alloc_cache_get ?s))) = nr_cached (cache ?s)"
    and "nr_cached (cache (snd (io_alloc_cache_get_kasan 64 ?s))) = nr_cached (cache ?s)"
    and "fst (io_alloc_cache_get ?s) = Some 2"
    and "list_next (cache (snd (io_alloc_cache_get ?s))) = node_next (mem ?s) 2"
    and "fst (io_alloc_cache_get_kasan 64 ?s) = Some 2"
    and "list_next (cache (snd (io_alloc_cache_get_kasan 64 ?s))) = node_next (mem ?s) 2"
    by blast+
  with head link count show ?thesis
    by simp
qed

subsection \<open>Put then get: the round trip\<close>

text \<open>
  C5. Whenever put of \<open>e\<close> succeeds, the get that follows returns \<open>e\<close>. The payload of
  every entry is the same after the two calls as before them, and so is every link
  field except that of \<open>e\<close>; and the two calls behave the same whatever the payload
  is (the same results and the same final state, around any payload \<open>p\<close>), so the
  payload is neither written nor read. Both variants.
\<close>

theorem put_get_round_trip:
  "(fst (io_alloc_cache_put e s) \<longrightarrow>
      fst (io_alloc_cache_get (snd (io_alloc_cache_put e s))) = Some e \<and>
      payload (mem (snd (io_alloc_cache_get (snd (io_alloc_cache_put e s))))) =
        payload (mem s) \<and>
      (\<forall>a. a \<noteq> e \<longrightarrow>
         node_next (mem (snd (io_alloc_cache_get (snd (io_alloc_cache_put e s))))) a =
         node_next (mem s) a) \<and>
      (\<forall>p. io_alloc_cache_put e (with_payload p s) =
             (True, with_payload p (snd (io_alloc_cache_put e s))) \<and>
           io_alloc_cache_get (with_payload p (snd (io_alloc_cache_put e s))) =
             (Some e,
              with_payload p (snd (io_alloc_cache_get (snd (io_alloc_cache_put e s))))))) \<and>
   (fst (io_alloc_cache_put_kasan e s) \<longrightarrow>
      fst (io_alloc_cache_get_kasan sz (snd (io_alloc_cache_put_kasan e s))) = Some e \<and>
      payload (mem (snd (io_alloc_cache_get_kasan sz (snd (io_alloc_cache_put_kasan e s))))) =
        payload (mem s) \<and>
      (\<forall>a. a \<noteq> e \<longrightarrow>
         node_next (mem (snd (io_alloc_cache_get_kasan sz
           (snd (io_alloc_cache_put_kasan e s))))) a =
         node_next (mem s) a) \<and>
      (\<forall>p. io_alloc_cache_put_kasan e (with_payload p s) =
             (True, with_payload p (snd (io_alloc_cache_put_kasan e s))) \<and>
           io_alloc_cache_get_kasan sz (with_payload p (snd (io_alloc_cache_put_kasan e s))) =
             (Some e,
              with_payload p (snd (io_alloc_cache_get_kasan sz
                (snd (io_alloc_cache_put_kasan e s)))))))"
proof (intro conjI impI)
  assume "fst (io_alloc_cache_put e s)"
  then show "fst (io_alloc_cache_get (snd (io_alloc_cache_put e s))) = Some e"
    and "payload (mem (snd (io_alloc_cache_get (snd (io_alloc_cache_put e s))))) =
        payload (mem s)"
    and "\<forall>a. a \<noteq> e \<longrightarrow>
         node_next (mem (snd (io_alloc_cache_get (snd (io_alloc_cache_put e s))))) a =
         node_next (mem s) a"
    and "\<forall>p. io_alloc_cache_put e (with_payload p s) =
             (True, with_payload p (snd (io_alloc_cache_put e s))) \<and>
           io_alloc_cache_get (with_payload p (snd (io_alloc_cache_put e s))) =
             (Some e,
              with_payload p (snd (io_alloc_cache_get (snd (io_alloc_cache_put e s)))))"
    by (simp_all add: io_alloc_cache_put_def io_alloc_cache_get_def wq_stack_add_head_def
        with_payload_def Let_def split: if_splits)
next
  assume "fst (io_alloc_cache_put_kasan e s)"
  then show "fst (io_alloc_cache_get_kasan sz (snd (io_alloc_cache_put_kasan e s))) = Some e"
    and "payload (mem (snd (io_alloc_cache_get_kasan sz (snd (io_alloc_cache_put_kasan e s))))) =
        payload (mem s)"
    and "\<forall>a. a \<noteq> e \<longrightarrow>
         node_next (mem (snd (io_alloc_cache_get_kasan sz
           (snd (io_alloc_cache_put_kasan e s))))) a =
         node_next (mem s) a"
    and "\<forall>p. io_alloc_cache_put_kasan e (with_payload p s) =
             (True, with_payload p (snd (io_alloc_cache_put_kasan e s))) \<and>
           io_alloc_cache_get_kasan sz (with_payload p (snd (io_alloc_cache_put_kasan e s))) =
             (Some e,
              with_payload p (snd (io_alloc_cache_get_kasan sz
                (snd (io_alloc_cache_put_kasan e s)))))"
    by (simp_all add: io_alloc_cache_put_kasan_def io_alloc_cache_get_kasan_def
        wq_stack_add_head_def call_out_def with_payload_def Let_def split: if_splits)
qed

theorem put_get_round_trip_witness:
  "fst (io_alloc_cache_put 7 (example_state (Some 4) 1 (\<lambda>_. None))) \<and>
   fst (io_alloc_cache_get (snd (io_alloc_cache_put 7 (example_state (Some 4) 1 (\<lambda>_. None))))) =
     Some 7 \<and>
   payload (mem (snd (io_alloc_cache_get
     (snd (io_alloc_cache_put 7 (example_state (Some 4) 1 (\<lambda>_. None))))))) 7 = 70 \<and>
   fst (io_alloc_cache_put_kasan 7 (example_state (Some 4) 1 (\<lambda>_. None))) \<and>
   fst (io_alloc_cache_get_kasan 64
     (snd (io_alloc_cache_put_kasan 7 (example_state (Some 4) 1 (\<lambda>_. None))))) = Some 7 \<and>
   payload (mem (snd (io_alloc_cache_get_kasan 64
     (snd (io_alloc_cache_put_kasan 7 (example_state (Some 4) 1 (\<lambda>_. None))))))) 7 = 70"
proof -
  let ?s = "example_state (Some 4) 1 (\<lambda>_. None)"
  have ok: "fst (io_alloc_cache_put 7 ?s)" "fst (io_alloc_cache_put_kasan 7 ?s)"
    by (simp_all add: io_alloc_cache_put_def io_alloc_cache_put_kasan_def example_state_def
        IO_ALLOC_CACHE_MAX_def)
  have pay: "payload (mem ?s) 7 = 70"
    by (simp add: example_state_def)
  from put_get_round_trip [of 7 ?s 64] ok
  have "fst (io_alloc_cache_get (snd (io_alloc_cache_put 7 ?s))) = Some 7"
    and "payload (mem (snd (io_alloc_cache_get (snd (io_alloc_cache_put 7 ?s))))) =
         payload (mem ?s)"
    and "fst (io_alloc_cache_get_kasan 64 (snd (io_alloc_cache_put_kasan 7 ?s))) = Some 7"
    and "payload (mem (snd (io_alloc_cache_get_kasan 64 (snd (io_alloc_cache_put_kasan 7 ?s))))) =
         payload (mem ?s)"
    by blast+
  with ok pay show ?thesis
    by simp
qed

subsection \<open>LIFO order\<close>

lemma lifo_plain:
  assumes "a \<noteq> b" "a \<noteq> c" "b \<noteq> c"
    and "s1 = snd (io_alloc_cache_put a s)" "s2 = snd (io_alloc_cache_put b s1)"
        "s3 = snd (io_alloc_cache_put c s2)"
    and "fst (io_alloc_cache_put a s)" "fst (io_alloc_cache_put b s1)" "fst (io_alloc_cache_put c s2)"
  shows "fst (io_alloc_cache_get s3) = Some c \<and>
         fst (io_alloc_cache_get (snd (io_alloc_cache_get s3))) = Some b \<and>
         fst (io_alloc_cache_get (snd (io_alloc_cache_get (snd (io_alloc_cache_get s3))))) = Some a"
  using assms
  by (simp add: put_fst put_snd io_alloc_cache_get_def)

lemma lifo_kasan:
  assumes "a \<noteq> b" "a \<noteq> c" "b \<noteq> c"
    and "s1 = snd (io_alloc_cache_put_kasan a s)" "s2 = snd (io_alloc_cache_put_kasan b s1)"
        "s3 = snd (io_alloc_cache_put_kasan c s2)"
    and "fst (io_alloc_cache_put_kasan a s)" "fst (io_alloc_cache_put_kasan b s1)" "fst (io_alloc_cache_put_kasan c s2)"
  shows "fst (io_alloc_cache_get_kasan k1 s3) = Some c \<and>
         fst (io_alloc_cache_get_kasan k2 (snd (io_alloc_cache_get_kasan k1 s3))) = Some b \<and>
         fst (io_alloc_cache_get_kasan k3 (snd (io_alloc_cache_get_kasan k2 (snd (io_alloc_cache_get_kasan k1 s3))))) = Some a"
  using assms
  by (simp add: put_kasan_fst put_kasan_snd io_alloc_cache_get_kasan_def call_out_def)

text \<open>
  C3. For distinct entries \<open>a\<close>, \<open>b\<close>, \<open>c\<close> and any state, the sequence put \<open>a\<close>, put
  \<open>b\<close>, put \<open>c\<close>, get, get, get has a result, and when the three puts succeed the
  three gets return \<open>c\<close>, then \<open>b\<close>, then \<open>a\<close>. Both variants.
\<close>

theorem lifo_order:
  assumes "a \<noteq> b" "a \<noteq> c" "b \<noteq> c"
  shows "(\<exists>r1 r2 r3 g1 g2 g3 t.
           run free [Put a, Put b, Put c, Get k1, Get k2, Get k3] s =
             Some ([Success r1, Success r2, Success r3, Entry g1, Entry g2, Entry g3], t) \<and>
           (r1 \<and> r2 \<and> r3 \<longrightarrow> g1 = Some c \<and> g2 = Some b \<and> g3 = Some a)) \<and>
         (\<exists>r1 r2 r3 g1 g2 g3 t.
           run_kasan free [Put a, Put b, Put c, Get k1, Get k2, Get k3] s =
             Some ([Success r1, Success r2, Success r3, Entry g1, Entry g2, Entry g3], t) \<and>
           (r1 \<and> r2 \<and> r3 \<longrightarrow> g1 = Some c \<and> g2 = Some b \<and> g3 = Some a))"
proof
  define s1 where "s1 = snd (io_alloc_cache_put a s)"
  define s2 where "s2 = snd (io_alloc_cache_put b s1)"
  define s3 where "s3 = snd (io_alloc_cache_put c s2)"
  define s4 where "s4 = snd (io_alloc_cache_get s3)"
  define s5 where "s5 = snd (io_alloc_cache_get s4)"
  have "run free [Put a, Put b, Put c, Get k1, Get k2, Get k3] s =
          Some ([Success (fst (io_alloc_cache_put a s)), Success (fst (io_alloc_cache_put b s1)),
                 Success (fst (io_alloc_cache_put c s2)), Entry (fst (io_alloc_cache_get s3)),
                 Entry (fst (io_alloc_cache_get s4)), Entry (fst (io_alloc_cache_get s5))],
                snd (io_alloc_cache_get s5))"
    unfolding run_def s1_def s2_def s3_def s4_def s5_def
    by (simp only: run_with.simps step_Put step_Get option.case prod.case)
  moreover have "fst (io_alloc_cache_put a s) \<and> fst (io_alloc_cache_put b s1) \<and>
      fst (io_alloc_cache_put c s2) \<longrightarrow>
      fst (io_alloc_cache_get s3) = Some c \<and> fst (io_alloc_cache_get s4) = Some b \<and>
      fst (io_alloc_cache_get s5) = Some a"
    using lifo_plain [OF assms s1_def s2_def s3_def] unfolding s4_def s5_def by blast
  ultimately show "\<exists>r1 r2 r3 g1 g2 g3 t.
           run free [Put a, Put b, Put c, Get k1, Get k2, Get k3] s =
             Some ([Success r1, Success r2, Success r3, Entry g1, Entry g2, Entry g3], t) \<and>
           (r1 \<and> r2 \<and> r3 \<longrightarrow> g1 = Some c \<and> g2 = Some b \<and> g3 = Some a)"
    by blast
next
  define s1 where "s1 = snd (io_alloc_cache_put_kasan a s)"
  define s2 where "s2 = snd (io_alloc_cache_put_kasan b s1)"
  define s3 where "s3 = snd (io_alloc_cache_put_kasan c s2)"
  define s4 where "s4 = snd (io_alloc_cache_get_kasan k1 s3)"
  define s5 where "s5 = snd (io_alloc_cache_get_kasan k2 s4)"
  have "run_kasan free [Put a, Put b, Put c, Get k1, Get k2, Get k3] s =
          Some ([Success (fst (io_alloc_cache_put_kasan a s)),
                 Success (fst (io_alloc_cache_put_kasan b s1)),
                 Success (fst (io_alloc_cache_put_kasan c s2)),
                 Entry (fst (io_alloc_cache_get_kasan k1 s3)),
                 Entry (fst (io_alloc_cache_get_kasan k2 s4)),
                 Entry (fst (io_alloc_cache_get_kasan k3 s5))],
                snd (io_alloc_cache_get_kasan k3 s5))"
    unfolding run_kasan_def s1_def s2_def s3_def s4_def s5_def
    by (simp only: run_with.simps step_kasan_Put step_kasan_Get option.case prod.case)
  moreover have "fst (io_alloc_cache_put_kasan a s) \<and> fst (io_alloc_cache_put_kasan b s1) \<and>
      fst (io_alloc_cache_put_kasan c s2) \<longrightarrow>
      fst (io_alloc_cache_get_kasan k1 s3) = Some c \<and>
      fst (io_alloc_cache_get_kasan k2 s4) = Some b \<and>
      fst (io_alloc_cache_get_kasan k3 s5) = Some a"
    using lifo_kasan [OF assms s1_def s2_def s3_def] unfolding s4_def s5_def by blast
  ultimately show "\<exists>r1 r2 r3 g1 g2 g3 t.
           run_kasan free [Put a, Put b, Put c, Get k1, Get k2, Get k3] s =
             Some ([Success r1, Success r2, Success r3, Entry g1, Entry g2, Entry g3], t) \<and>
           (r1 \<and> r2 \<and> r3 \<longrightarrow> g1 = Some c \<and> g2 = Some b \<and> g3 = Some a)"
    by blast
qed


theorem lifo_order_witness:
  "(1::nat) \<noteq> 2 \<and> (1::nat) \<noteq> 3 \<and> (2::nat) \<noteq> 3 \<and>
   map_option fst (run (\<lambda>e m. m) [Put 1, Put 2, Put 3, Get 64, Get 64, Get 64]
       (example_state None 0 (\<lambda>_. None))) =
     Some [Success True, Success True, Success True,
           Entry (Some 3), Entry (Some 2), Entry (Some 1)] \<and>
   map_option fst (run_kasan (\<lambda>e m. m) [Put 1, Put 2, Put 3, Get 64, Get 64, Get 64]
       (example_state None 0 (\<lambda>_. None))) =
     Some [Success True, Success True, Success True,
           Entry (Some 3), Entry (Some 2), Entry (Some 1)]"
proof -
  have ne: "(1::nat) \<noteq> 2" "(1::nat) \<noteq> 3" "(2::nat) \<noteq> 3"
    by simp_all
  from lifo_order [OF ne, of "\<lambda>e m. m" 64 64 64 "example_state None 0 (\<lambda>_. None)"]
  show ?thesis
    by (simp add: run_def run_kasan_def example_state_def io_alloc_cache_put_def
        io_alloc_cache_get_def io_alloc_cache_put_kasan_def io_alloc_cache_get_kasan_def
        wq_stack_add_head_def call_out_def IO_ALLOC_CACHE_MAX_def)
qed

subsection \<open>Drain\<close>

text \<open>
  C4, as the code has it. Whenever a drain returns, in any state and with any callback,
  the head link is \<^verbatim>\<open>NULL\<close>, the counter is 0 and the next get returns \<^verbatim>\<open>NULL\<close>.
  When the chain of the state is \<open>xs\<close> (it ends at \<^verbatim>\<open>NULL\<close>, hence no entry occurs
  twice in it) and the callback writes, of the link fields, only the one of the entry
  it is given, the drain returns and the calls it adds are exactly the callback on the
  entries \<open>xs\<close>, once each, in chain order (in the KASAN variant each preceded by the
  unpoison call-out for that entry). Both variants.
\<close>

theorem drain_complete:
  "(io_alloc_cache_free free s = Some t \<longrightarrow>
      list_next (cache t) = None \<and> nr_cached (cache t) = 0 \<and>
      io_alloc_cache_get t = (None, t)) \<and>
   (io_alloc_cache_free_kasan free sz s = Some t \<longrightarrow>
      list_next (cache t) = None \<and> nr_cached (cache t) = 0 \<and>
      io_alloc_cache_get_kasan k t = (None, t)) \<and>
   (writes_only_entry free \<and> chain (node_next (mem s)) (list_next (cache s)) xs \<longrightarrow>
      distinct xs \<and>
      (\<exists>t. io_alloc_cache_free free s = Some t \<and>
           calls t = calls s @ map Free_entry xs \<and>
           freed (calls t) = freed (calls s) @ xs) \<and>
      (\<exists>t. io_alloc_cache_free_kasan free sz s = Some t \<and>
           calls t = calls s @ kasan_free_calls sz xs \<and>
           freed (calls t) = freed (calls s) @ xs))"
proof (intro conjI impI)
  assume "io_alloc_cache_free free s = Some t"
  then have "list_next (cache t) = None \<and> nr_cached (cache t) = 0"
    by (rule free_Some_head)
  then show "list_next (cache t) = None" and "nr_cached (cache t) = 0"
    and "io_alloc_cache_get t = (None, t)"
    by (simp_all add: io_alloc_cache_get_def)
next
  assume "io_alloc_cache_free_kasan free sz s = Some t"
  then have "list_next (cache t) = None \<and> nr_cached (cache t) = 0"
    by (rule free_kasan_Some_head)
  then show "list_next (cache t) = None" and "nr_cached (cache t) = 0"
    and "io_alloc_cache_get_kasan k t = (None, t)"
    by (simp_all add: get_kasan_None)
next
  assume wf: "writes_only_entry free \<and> chain (node_next (mem s)) (list_next (cache s)) xs"
  then show "distinct xs"
    by (auto dest: chain_distinct)
  from wf have c: "chain (node_next (mem s)) (list_next (cache s)) xs"
    and w: "writes_only_entry free"
    by simp_all
  show "\<exists>t. io_alloc_cache_free free s = Some t \<and>
           calls t = calls s @ map Free_entry xs \<and>
           freed (calls t) = freed (calls s) @ xs"
    by (simp add: free_chain [OF c w] freed_append freed_map_Free)
  show "\<exists>t. io_alloc_cache_free_kasan free sz s = Some t \<and>
           calls t = calls s @ kasan_free_calls sz xs \<and>
           freed (calls t) = freed (calls s) @ xs"
    by (simp add: free_kasan_chain [OF c w] freed_append freed_kasan_free_calls)
qed

theorem drain_complete_witness:
  "writes_only_entry example_free \<and>
   chain (node_next (mem (example_state (Some 3) 3 ((\<lambda>_. None)(3 := Some 2, 2 := Some 1)))))
     (list_next (cache (example_state (Some 3) 3 ((\<lambda>_. None)(3 := Some 2, 2 := Some 1)))))
     [3, 2, 1] \<and>
   (\<exists>t. io_alloc_cache_free example_free
          (example_state (Some 3) 3 ((\<lambda>_. None)(3 := Some 2, 2 := Some 1))) = Some t \<and>
        calls t = [Free_entry 3, Free_entry 2, Free_entry 1] \<and>
        list_next (cache t) = None \<and> nr_cached (cache t) = 0 \<and>
        io_alloc_cache_get t = (None, t)) \<and>
   (\<exists>t. io_alloc_cache_free_kasan example_free 64
          (example_state (Some 3) 3 ((\<lambda>_. None)(3 := Some 2, 2 := Some 1))) = Some t \<and>
        freed (calls t) = [3, 2, 1] \<and>
        list_next (cache t) = None \<and> nr_cached (cache t) = 0 \<and>
        io_alloc_cache_get_kasan 64 t = (None, t))"
proof -
  let ?s = "example_state (Some 3) 3 ((\<lambda>_. None)(3 := Some 2, 2 := Some 1))"
  have frame: "writes_only_entry example_free"
    by (simp add: writes_only_entry_def example_free_def)
  have ch: "chain (node_next (mem ?s)) (list_next (cache ?s)) [3, 2, 1]"
    by (simp add: example_state_def)
  have none: "calls ?s = []"
    by (simp add: example_state_def)
  from drain_complete [of example_free ?s ?s 64 64 "[3, 2, 1]"] frame ch
  have "\<exists>t. io_alloc_cache_free example_free ?s = Some t \<and>
           calls t = calls ?s @ map Free_entry [3, 2, 1] \<and>
           freed (calls t) = freed (calls ?s) @ [3, 2, 1]"
    and "\<exists>t. io_alloc_cache_free_kasan example_free 64 ?s = Some t \<and>
           calls t = calls ?s @ kasan_free_calls 64 [3, 2, 1] \<and>
           freed (calls t) = freed (calls ?s) @ [3, 2, 1]"
    by blast+
  then obtain t1 t2 where t1: "io_alloc_cache_free example_free ?s = Some t1"
    "calls t1 = calls ?s @ map Free_entry [3, 2, 1]"
    and t2: "io_alloc_cache_free_kasan example_free 64 ?s = Some t2"
    "freed (calls t2) = freed (calls ?s) @ [3, 2, 1]"
    by blast
  from t1(2) t2(2) none have out: "calls t1 = [Free_entry 3, Free_entry 2, Free_entry 1]"
    "freed (calls t2) = [3, 2, 1]"
    by simp_all
  from drain_complete [of example_free ?s t1 64 64] drain_complete [of example_free ?s t2 64 64]
    t1(1) t2(1)
  have "list_next (cache t1) = None \<and> nr_cached (cache t1) = 0 \<and>
      io_alloc_cache_get t1 = (None, t1)"
    and "list_next (cache t2) = None \<and> nr_cached (cache t2) = 0 \<and>
      io_alloc_cache_get_kasan 64 t2 = (None, t2)"
    by blast+
  with frame ch t1(1) t2(1) out show ?thesis
    by blast
qed

text \<open>
  Without the two conditions the callback is not called once per entry. After init and
  two puts of entry 1 the link field of entry 1 is entry 1 itself; with the callback
  that clears the link field of its entry the drain returns after calling the callback
  on entry 1 twice. And on the chain 3, 2, 1 the callback that clears every link field
  is called on 3 and 2 only, never on 1. Both variants.
\<close>

theorem drain_once_per_entry_counterexample:
  "run example_free [Init, Put 1, Put 1] (example_state None 0 (\<lambda>_. None)) =
     Some ([Done, Success True, Success True],
           example_state (Some 1) 2 ((\<lambda>_. None)(1 := Some 1))) \<and>
   map_option calls (io_alloc_cache_free example_free
     (example_state (Some 1) 2 ((\<lambda>_. None)(1 := Some 1)))) =
     Some [Free_entry 1, Free_entry 1] \<and>
   map_option (freed \<circ> calls) (io_alloc_cache_free_kasan example_free 64
     (example_state (Some 1) 2 ((\<lambda>_. None)(1 := Some 1)))) = Some [1, 1] \<and>
   chain (node_next (mem (example_state (Some 3) 3 ((\<lambda>_. None)(3 := Some 2, 2 := Some 1)))))
     (list_next (cache (example_state (Some 3) 3 ((\<lambda>_. None)(3 := Some 2, 2 := Some 1)))))
     [3, 2, 1] \<and>
   map_option calls (io_alloc_cache_free example_free_all
     (example_state (Some 3) 3 ((\<lambda>_. None)(3 := Some 2, 2 := Some 1)))) =
     Some [Free_entry 3, Free_entry 2] \<and>
   map_option (freed \<circ> calls) (io_alloc_cache_free_kasan example_free_all 64
     (example_state (Some 3) 3 ((\<lambda>_. None)(3 := Some 2, 2 := Some 1)))) = Some [3, 2]"
  by (simp add: run_def example_state_def example_free_def example_free_all_def
      io_alloc_cache_init_def io_alloc_cache_put_def io_alloc_cache_get_kasan_def
      io_alloc_cache_free_def io_alloc_cache_free_kasan_def free_loop.simps
      free_loop_kasan.simps wq_stack_add_head_def call_out_def call_free_def
      IO_ALLOC_CACHE_MAX_def)

text \<open>
  C9. A drain that follows a drain that returned changes nothing: it returns the same
  state, so it adds no call of the callback. A drain of a state whose head link is
  \<^verbatim>\<open>NULL\<close> makes no call and only sets the counter to 0, so it leaves a state with
  head \<^verbatim>\<open>NULL\<close> and counter 0 as it is. With a chain \<open>xs\<close> and a callback as in C4
  the first drain returns, and so does the second. Both variants.
\<close>

theorem drain_idempotent:
  "(io_alloc_cache_free free s = Some t \<longrightarrow> io_alloc_cache_free free t = Some t) \<and>
   (io_alloc_cache_free_kasan free sz s = Some t \<longrightarrow>
      io_alloc_cache_free_kasan free k t = Some t) \<and>
   (list_next (cache s) = None \<longrightarrow>
      io_alloc_cache_free free s = Some (s\<lparr>cache := \<lparr>list_next = None, nr_cached = 0\<rparr>\<rparr>) \<and>
      io_alloc_cache_free_kasan free sz s =
        Some (s\<lparr>cache := \<lparr>list_next = None, nr_cached = 0\<rparr>\<rparr>)) \<and>
   (list_next (cache s) = None \<and> nr_cached (cache s) = 0 \<longrightarrow>
      io_alloc_cache_free free s = Some s \<and> io_alloc_cache_free_kasan free sz s = Some s) \<and>
   (writes_only_entry free \<and> chain (node_next (mem s)) (list_next (cache s)) xs \<longrightarrow>
      (\<exists>t. io_alloc_cache_free free s = Some t \<and> io_alloc_cache_free free t = Some t) \<and>
      (\<exists>t. io_alloc_cache_free_kasan free sz s = Some t \<and>
           io_alloc_cache_free_kasan free k t = Some t))"
proof -
  have again: "io_alloc_cache_free free u = Some u \<and> io_alloc_cache_free_kasan free n u = Some u"
    if "list_next (cache u) = None \<and> nr_cached (cache u) = 0" for u :: "'a state" and n
    using that by (simp add: free_empty free_kasan_empty reset_count_idle)
  have plain: "io_alloc_cache_free free t = Some t"
    if "io_alloc_cache_free free s = Some t" for t
    using again free_Some_head [OF that] by blast
  have kasan: "io_alloc_cache_free_kasan free k t = Some t"
    if "io_alloc_cache_free_kasan free sz s = Some t" for t
    using again free_kasan_Some_head [OF that] by blast
  have empty: "io_alloc_cache_free free s = Some (s\<lparr>cache := \<lparr>list_next = None, nr_cached = 0\<rparr>\<rparr>) \<and>
      io_alloc_cache_free_kasan free sz s =
        Some (s\<lparr>cache := \<lparr>list_next = None, nr_cached = 0\<rparr>\<rparr>)"
    if "list_next (cache s) = None"
    using that by (cases s, cases "cache s") (simp add: free_empty free_kasan_empty)
  have twice: "(\<exists>t. io_alloc_cache_free free s = Some t \<and> io_alloc_cache_free free t = Some t) \<and>
      (\<exists>t. io_alloc_cache_free_kasan free sz s = Some t \<and>
           io_alloc_cache_free_kasan free k t = Some t)"
    if "writes_only_entry free \<and> chain (node_next (mem s)) (list_next (cache s)) xs"
  proof -
    from that have c: "chain (node_next (mem s)) (list_next (cache s)) xs"
      and w: "writes_only_entry free"
      by simp_all
    have "\<exists>t. io_alloc_cache_free free s = Some t"
      and "\<exists>t. io_alloc_cache_free_kasan free sz s = Some t"
      by (simp_all add: free_chain [OF c w] free_kasan_chain [OF c w])
    with plain kasan show ?thesis
      by blast
  qed
  from plain kasan empty again twice show ?thesis
    by blast
qed

theorem drain_idempotent_witness:
  "writes_only_entry example_free \<and>
   chain (node_next (mem (example_state (Some 3) 3 ((\<lambda>_. None)(3 := Some 2, 2 := Some 1)))))
     (list_next (cache (example_state (Some 3) 3 ((\<lambda>_. None)(3 := Some 2, 2 := Some 1)))))
     [3, 2, 1] \<and>
   (\<exists>t. io_alloc_cache_free example_free
          (example_state (Some 3) 3 ((\<lambda>_. None)(3 := Some 2, 2 := Some 1))) = Some t \<and>
        io_alloc_cache_free example_free t = Some t) \<and>
   (\<exists>t. io_alloc_cache_free_kasan example_free 64
          (example_state (Some 3) 3 ((\<lambda>_. None)(3 := Some 2, 2 := Some 1))) = Some t \<and>
        io_alloc_cache_free_kasan example_free 64 t = Some t) \<and>
   io_alloc_cache_free example_free (example_state None 0 (\<lambda>_. None)) =
     Some (example_state None 0 (\<lambda>_. None)) \<and>
   io_alloc_cache_free_kasan example_free 64 (example_state None 0 (\<lambda>_. None)) =
     Some (example_state None 0 (\<lambda>_. None))"
proof -
  let ?s = "example_state (Some 3) 3 ((\<lambda>_. None)(3 := Some 2, 2 := Some 1))"
  let ?e = "example_state None 0 (\<lambda>_. None)"
  have frame: "writes_only_entry example_free"
    by (simp add: writes_only_entry_def example_free_def)
  have ch: "chain (node_next (mem ?s)) (list_next (cache ?s)) [3, 2, 1]"
    by (simp add: example_state_def)
  have empty: "list_next (cache ?e) = None \<and> nr_cached (cache ?e) = 0"
    by (simp add: example_state_def)
  from drain_idempotent [of example_free ?s _ 64 64 "[3, 2, 1]"] frame ch
  have "\<exists>t. io_alloc_cache_free example_free ?s = Some t \<and>
        io_alloc_cache_free example_free t = Some t"
    and "\<exists>t. io_alloc_cache_free_kasan example_free 64 ?s = Some t \<and>
        io_alloc_cache_free_kasan example_free 64 t = Some t"
    by blast+
  moreover from drain_idempotent [of example_free ?e _ 64 64 "[]"] empty
  have "io_alloc_cache_free example_free ?e = Some ?e"
    and "io_alloc_cache_free_kasan example_free 64 ?e = Some ?e"
    by blast+
  ultimately show ?thesis
    using frame ch by blast
qed

subsection \<open>The capacity bound\<close>

text \<open>
  C1. From an initialised cache, a sequence of puts of any entries \<open>es\<close> has a result:
  the first 512 puts return success and every later put returns failure, and the
  counter ends at the smaller of the number of puts and 512. After each prefix of the
  sequence the counter is at most \<open>IO_ALLOC_CACHE_MAX\<close>. Both variants.
\<close>

theorem capacity_bound:
  "(\<exists>t. run free (map Put es) (io_alloc_cache_init s) =
         Some (replicate (min (length es) 512) (Success True) @
               replicate (length es - 512) (Success False), t) \<and>
        unat (nr_cached (cache t)) = min (length es) 512) \<and>
   (\<forall>n. \<exists>rs t. run free (map Put (take n es)) (io_alloc_cache_init s) = Some (rs, t) \<and>
        nr_cached (cache t) \<le> IO_ALLOC_CACHE_MAX) \<and>
   (\<exists>t. run_kasan free (map Put es) (io_alloc_cache_init_kasan s) =
         Some (replicate (min (length es) 512) (Success True) @
               replicate (length es - 512) (Success False), t) \<and>
        unat (nr_cached (cache t)) = min (length es) 512) \<and>
   (\<forall>n. \<exists>rs t. run_kasan free (map Put (take n es)) (io_alloc_cache_init_kasan s) =
         Some (rs, t) \<and>
        nr_cached (cache t) \<le> IO_ALLOC_CACHE_MAX)"
proof (intro conjI allI)
  show "\<exists>t. run free (map Put es) (io_alloc_cache_init s) =
         Some (replicate (min (length es) 512) (Success True) @
               replicate (length es - 512) (Success False), t) \<and>
        unat (nr_cached (cache t)) = min (length es) 512"
    using run_puts [OF init_count(1), where free = free and es = es and s1 = s] by simp
  show "\<exists>t. run_kasan free (map Put es) (io_alloc_cache_init_kasan s) =
         Some (replicate (min (length es) 512) (Success True) @
               replicate (length es - 512) (Success False), t) \<and>
        unat (nr_cached (cache t)) = min (length es) 512"
    using run_kasan_puts [OF init_count(2), where free = free and es = es and s1 = s] by simp
next
  fix n
  from run_puts [OF init_count(1), where free = free and es = "take n es" and s1 = s]
  obtain t where "run free (map Put (take n es)) (io_alloc_cache_init s) =
         Some (replicate (min (length (take n es)) 512) (Success True) @
               replicate (length (take n es) - 512) (Success False), t)"
    and "unat (nr_cached (cache t)) = min (0 + length (take n es)) 512"
    by auto
  then show "\<exists>rs t. run free (map Put (take n es)) (io_alloc_cache_init s) = Some (rs, t) \<and>
        nr_cached (cache t) \<le> IO_ALLOC_CACHE_MAX"
    by (simp add: word_le_nat_alt max_unat)
next
  fix n
  from run_kasan_puts [OF init_count(2), where free = free and es = "take n es" and s1 = s]
  obtain t where "run_kasan free (map Put (take n es)) (io_alloc_cache_init_kasan s) =
         Some (replicate (min (length (take n es)) 512) (Success True) @
               replicate (length (take n es) - 512) (Success False), t)"
    and "unat (nr_cached (cache t)) = min (0 + length (take n es)) 512"
    by auto
  then show "\<exists>rs t. run_kasan free (map Put (take n es)) (io_alloc_cache_init_kasan s) =
         Some (rs, t) \<and>
        nr_cached (cache t) \<le> IO_ALLOC_CACHE_MAX"
    by (simp add: word_le_nat_alt max_unat)
qed

theorem capacity_bound_example:
  "map_option fst (run example_free (map Put (replicate 513 7))
      (io_alloc_cache_init (example_state (Some 4) 9 (\<lambda>_. None)))) =
     Some (replicate 512 (Success True) @ [Success False]) \<and>
   map_option fst (run_kasan example_free (map Put (replicate 513 7))
      (io_alloc_cache_init_kasan (example_state (Some 4) 9 (\<lambda>_. None)))) =
     Some (replicate 512 (Success True) @ [Success False])"
proof -
  from capacity_bound [of example_free "replicate 513 7" "example_state (Some 4) 9 (\<lambda>_. None)"]
  obtain t1 t2 where
    "run example_free (map Put (replicate 513 7))
       (io_alloc_cache_init (example_state (Some 4) 9 (\<lambda>_. None))) =
     Some (replicate (min (length (replicate 513 (7::nat))) 512) (Success True) @
           replicate (length (replicate 513 (7::nat)) - 512) (Success False), t1)"
    and "run_kasan example_free (map Put (replicate 513 7))
       (io_alloc_cache_init_kasan (example_state (Some 4) 9 (\<lambda>_. None))) =
     Some (replicate (min (length (replicate 513 (7::nat))) 512) (Success True) @
           replicate (length (replicate 513 (7::nat)) - 512) (Success False), t2)"
    by blast
  then show ?thesis
    by simp
qed

subsection \<open>The counter and the chain\<close>

lemma run_matches_ledger:
  assumes "writes_only_entry free" and "puts_fresh ops ([], 0)"
  shows "(\<exists>t. run free (Init # ops) s = Some (Done # fst (ledger ops ([], 0)), t) \<and>
              matches t (snd (ledger ops ([], 0)))) \<and>
         (\<exists>t. run_kasan free (Init # ops) s = Some (Done # fst (ledger ops ([], 0)), t) \<and>
              matches t (snd (ledger ops ([], 0))))"
proof -
  have "\<exists>t. run_with (step free) ops (io_alloc_cache_init s) = Some (fst (ledger ops ([], 0)), t) \<and>
      matches t (snd (ledger ops ([], 0)))"
  proof (rule run_with_matches)
    show "\<exists>t. step free x u = Some (fst (ledger_step x a), t) \<and>
        matches t (snd (ledger_step x a))"
      if "matches u a" and "op_fresh x a" for x a and u :: "'a state"
      using step_matches [OF that assms(1)] by blast
    show "matches (io_alloc_cache_init s) ([], 0)"
      by (rule init_matches)
    show "puts_fresh ops ([], 0)"
      by (rule assms)
  qed
  then obtain t where plain: "run free (Init # ops) s = Some (Done # fst (ledger ops ([], 0)), t)"
    and t: "matches t (snd (ledger ops ([], 0)))"
    by (auto simp: run_def)
  have "\<exists>t. run_with (step_kasan free) ops (io_alloc_cache_init_kasan s) =
        Some (fst (ledger ops ([], 0)), t) \<and>
      matches t (snd (ledger ops ([], 0)))"
  proof (rule run_with_matches)
    show "\<exists>t. step_kasan free x u = Some (fst (ledger_step x a), t) \<and>
        matches t (snd (ledger_step x a))"
      if "matches u a" and "op_fresh x a" for x a and u :: "'a state"
      using step_matches [OF that assms(1)] by blast
    show "matches (io_alloc_cache_init_kasan s) ([], 0)"
      by (rule init_matches)
    show "puts_fresh ops ([], 0)"
      by (rule assms)
  qed
  then obtain t' where kasan:
    "run_kasan free (Init # ops) s = Some (Done # fst (ledger ops ([], 0)), t')"
    and t': "matches t' (snd (ledger ops ([], 0)))"
    by (auto simp: run_kasan_def)
  from plain t kasan t' show ?thesis
    by blast
qed

text \<open>
  C2, as the code has it. Take a callback that writes no link field but that of the
  entry it is given, and a sequence of operations in which no entry is put while it is
  in the chain. Run after an init from any state, the sequence has a result, and in the
  final state the chain from the head is the ledger's list: it ends at \<^verbatim>\<open>NULL\<close> and
  repeats no entry. The chain has at most \<open>nr_cached\<close> entries, \<open>nr_cached\<close> is at most
  512, and \<open>nr_cached\<close> is the length of the chain when no get has returned an entry
  since the last init or drain. Both variants.
\<close>

theorem chain_and_count_invariant:
  assumes "writes_only_entry free" and "puts_fresh ops ([], 0)"
  shows "(\<exists>t. run free (Init # ops) s = Some (Done # fst (ledger ops ([], 0)), t) \<and>
              chain (node_next (mem t)) (list_next (cache t)) (fst (snd (ledger ops ([], 0)))) \<and>
              length (fst (snd (ledger ops ([], 0)))) \<le> unat (nr_cached (cache t)) \<and>
              unat (nr_cached (cache t)) \<le> 512 \<and>
              (snd (snd (ledger ops ([], 0))) = 0 \<longrightarrow>
                 unat (nr_cached (cache t)) = length (fst (snd (ledger ops ([], 0)))))) \<and>
         (\<exists>t. run_kasan free (Init # ops) s = Some (Done # fst (ledger ops ([], 0)), t) \<and>
              chain (node_next (mem t)) (list_next (cache t)) (fst (snd (ledger ops ([], 0)))) \<and>
              length (fst (snd (ledger ops ([], 0)))) \<le> unat (nr_cached (cache t)) \<and>
              unat (nr_cached (cache t)) \<le> 512 \<and>
              (snd (snd (ledger ops ([], 0))) = 0 \<longrightarrow>
                 unat (nr_cached (cache t)) = length (fst (snd (ledger ops ([], 0)))))) \<and>
         distinct (fst (snd (ledger ops ([], 0))))"
proof -
  define L where "L = fst (snd (ledger ops ([], 0)))"
  define G where "G = snd (snd (ledger ops ([], 0)))"
  define rs where "rs = Done # fst (ledger ops ([], 0))"
  have facts: "chain (node_next (mem u)) (list_next (cache u)) L \<and>
      length L \<le> unat (nr_cached (cache u)) \<and> unat (nr_cached (cache u)) \<le> 512 \<and>
      (G = 0 \<longrightarrow> unat (nr_cached (cache u)) = length L)"
    if "matches u (snd (ledger ops ([], 0)))" for u :: "'a state"
    using that by (simp add: matches_def L_def G_def)
  from run_matches_ledger [OF assms, of s]
  have "\<exists>t. run free (Init # ops) s = Some (rs, t) \<and> matches t (snd (ledger ops ([], 0)))"
    and "\<exists>t. run_kasan free (Init # ops) s = Some (rs, t) \<and>
      matches t (snd (ledger ops ([], 0)))"
    unfolding rs_def by (rule conjunct1, rule conjunct2)
  then obtain t t' where plain: "run free (Init # ops) s = Some (rs, t)"
    and t: "matches t (snd (ledger ops ([], 0)))"
    and kasan: "run_kasan free (Init # ops) s = Some (rs, t')"
    and t': "matches t' (snd (ledger ops ([], 0)))"
    by blast
  from t have "chain (node_next (mem t)) (list_next (cache t)) L"
    by (simp add: facts)
  then have "distinct L"
    by (rule chain_distinct)
  with plain kasan facts [OF t] facts [OF t']
  have "(\<exists>t. run free (Init # ops) s = Some (rs, t) \<and>
              chain (node_next (mem t)) (list_next (cache t)) L \<and>
              length L \<le> unat (nr_cached (cache t)) \<and>
              unat (nr_cached (cache t)) \<le> 512 \<and>
              (G = 0 \<longrightarrow> unat (nr_cached (cache t)) = length L)) \<and>
         (\<exists>t. run_kasan free (Init # ops) s = Some (rs, t) \<and>
              chain (node_next (mem t)) (list_next (cache t)) L \<and>
              length L \<le> unat (nr_cached (cache t)) \<and>
              unat (nr_cached (cache t)) \<le> 512 \<and>
              (G = 0 \<longrightarrow> unat (nr_cached (cache t)) = length L)) \<and>
         distinct L"
    by blast
  then show ?thesis
    unfolding L_def G_def rs_def .
qed

theorem chain_and_count_invariant_witness:
  "writes_only_entry example_free \<and>
   puts_fresh [Put 1, Put 2, Get 64, Drain 64, Put 3, Put 1] ([], 0) \<and>
   (\<exists>t. run example_free [Init, Put 1, Put 2, Get 64, Drain 64, Put 3, Put 1]
          (example_state (Some 4) 9 (\<lambda>_. None)) =
        Some ([Done, Success True, Success True, Entry (Some 2), Done,
               Success True, Success True], t) \<and>
        chain (node_next (mem t)) (list_next (cache t)) [1, 3] \<and>
        unat (nr_cached (cache t)) = 2) \<and>
   (\<exists>t. run_kasan example_free [Init, Put 1, Put 2, Get 64, Drain 64, Put 3, Put 1]
          (example_state (Some 4) 9 (\<lambda>_. None)) =
        Some ([Done, Success True, Success True, Entry (Some 2), Done,
               Success True, Success True], t) \<and>
        chain (node_next (mem t)) (list_next (cache t)) [1, 3] \<and>
        unat (nr_cached (cache t)) = 2)"
proof -
  let ?ops = "[Put 1, Put 2, Get 64, Drain 64, Put 3, Put 1]"
  have frame: "writes_only_entry example_free"
    by (simp add: writes_only_entry_def example_free_def)
  have fresh: "puts_fresh ?ops ([], 0)"
    by simp
  have book: "ledger ?ops ([], 0) =
      ([Success True, Success True, Entry (Some 2), Done, Success True, Success True],
       ([1, 3], 0))"
    by simp
  have len: "length [1::nat, 3] = 2"
    by simp
  note chain_and_count_invariant [OF frame fresh, of "example_state (Some 4) 9 (\<lambda>_. None)",
      unfolded book fst_conv snd_conv len]
  with frame fresh show ?thesis
    by blast
qed

text \<open>
  The counter is not the length of the chain after a get that returned an entry: after
  init, put of entry 1 and get, the chain is empty and the counter is 1. And without the
  precondition on the puts the chain need not end: after init and two puts of entry 1
  the head is entry 1 and the link field of entry 1 is entry 1 again.
\<close>

theorem count_is_chain_length_counterexample:
  "run example_free [Init, Put 1, Get 64] (example_state None 0 (\<lambda>_. None)) =
     Some ([Done, Success True, Entry (Some 1)], example_state None 1 (\<lambda>_. None)) \<and>
   chain (node_next (mem (example_state None 1 (\<lambda>_. None))))
     (list_next (cache (example_state None 1 (\<lambda>_. None)))) [] \<and>
   unat (nr_cached (cache (example_state None 1 (\<lambda>_. None)))) \<noteq> length ([] :: addr list) \<and>
   map_option fst (run_kasan example_free [Init, Put 1, Get 64]
     (example_state None 0 (\<lambda>_. None))) = Some [Done, Success True, Entry (Some 1)] \<and>
   map_option (cache \<circ> snd) (run_kasan example_free [Init, Put 1, Get 64]
     (example_state None 0 (\<lambda>_. None))) = Some \<lparr>list_next = None, nr_cached = 1\<rparr> \<and>
   run example_free [Init, Put 1, Put 1] (example_state None 0 (\<lambda>_. None)) =
     Some ([Done, Success True, Success True],
           example_state (Some 1) 2 ((\<lambda>_. None)(1 := Some 1)))"
  by (simp add: run_def run_kasan_def example_state_def io_alloc_cache_init_def
      io_alloc_cache_init_kasan_def io_alloc_cache_put_def io_alloc_cache_put_kasan_def
      io_alloc_cache_get_def io_alloc_cache_get_kasan_def wq_stack_add_head_def call_out_def
      IO_ALLOC_CACHE_MAX_def)

subsection \<open>The two variants agree\<close>

text \<open>
  C10. For every callback, sequence of operations and start state, either both
  variants have no result (a drain does not return in either), or both have one: the
  same results (put successes and failures, entries returned by get) and final states
  with the same cache (head and counter), the same memory and the same calls of the
  \<^verbatim>\<open>free\<close> callback; only the KASAN call-outs differ.
\<close>

theorem variants_equivalent:
  "(run_kasan free ops s = None \<and> run free ops s = None) \<or>
   (\<exists>rs t t'. run_kasan free ops s = Some (rs, t) \<and> run free ops s = Some (rs, t') \<and>
      cache t = cache t' \<and> mem t = mem t' \<and> freed (calls t) = freed (calls t'))"
  using run_sim [OF agree_refl, of free ops s]
  by (simp add: run_def run_kasan_def agree_def)

theorem variants_equivalent_example:
  "map_option fst (run_kasan example_free [Init, Put 1, Put 2, Get 64, Put 3, Drain 64, Get 64]
      (example_state (Some 4) 9 (\<lambda>_. None))) =
     Some [Done, Success True, Success True, Entry (Some 2), Success True, Done, Entry None] \<and>
   map_option fst (run example_free [Init, Put 1, Put 2, Get 64, Put 3, Drain 64, Get 64]
      (example_state (Some 4) 9 (\<lambda>_. None))) =
     Some [Done, Success True, Success True, Entry (Some 2), Success True, Done, Entry None]"
proof -
  let ?ops = "[Init, Put 1, Put 2, Get 64, Put 3, Drain 64, Get 64]"
  let ?s = "example_state (Some 4) 9 (\<lambda>_. None)"
  have "map_option fst (run_kasan example_free ?ops ?s) =
     Some [Done, Success True, Success True, Entry (Some 2), Success True, Done, Entry None]"
    by (simp add: run_kasan_def example_state_def example_free_def
        io_alloc_cache_init_kasan_def io_alloc_cache_put_kasan_def io_alloc_cache_get_kasan_def
        io_alloc_cache_free_kasan_def free_loop_kasan.simps wq_stack_add_head_def
        call_out_def call_free_def IO_ALLOC_CACHE_MAX_def)
  with variants_equivalent [of example_free ?ops ?s] show ?thesis
    by auto
qed

end
